theory Spec2Isabelle
  imports Main "HOL-Library.Word"
begin

section \<open>Python values\<close>

text \<open>
  A Python \<open>str\<close> is a sequence of Unicode code points; a code point is a 32-bit word
  (CPython's \<open>Py_UCS4\<close>). ASCII text is written with \<open>ascii\<close>, other characters by their
  code point.
\<close>

type_synonym uchar = "32 word"
type_synonym pystr = "uchar list"

definition ascii :: "string \<Rightarrow> pystr" where
  "ascii s = map of_char s"

text \<open>
  The values \<open>response.json()\<close> produces: \<open>None\<close>, booleans, integers, strings, lists and
  dictionaries with string keys (a dictionary is an association list in insertion order,
  looked up from the front). JSON numbers with a fraction or an exponent, which Python
  reads as floats, are not represented.
\<close>

datatype pyval =
    PNone
  | PBool bool
  | PInt int
  | PStr pystr
  | PList "pyval list"
  | PDict "(pystr \<times> pyval) list"

text \<open>
  What the interpreter and its Unicode database decide and the repository does not:
  \<open>str.isprintable\<close> on a non-ASCII code point (used by \<open>repr\<close>), the value of a Unicode
  decimal digit (used by \<open>\d\<close> and \<open>int\<close> inside \<open>strptime\<close>), \<open>str.lower\<close>, and whether the
  platform's \<open>strftime\<close> pads \<open>%Y\<close> to four digits.
\<close>

record runtime =
  isprintable :: "uchar \<Rightarrow> bool"
  decimal_value :: "uchar \<Rightarrow> nat option"
  str_lower :: "pystr \<Rightarrow> pystr"
  year_zero_padded :: bool

fun truthy :: "pyval \<Rightarrow> bool" where
  "truthy PNone = False"
| "truthy (PBool b) = b"
| "truthy (PInt i) = (i \<noteq> 0)"
| "truthy (PStr s) = (s \<noteq> [])"
| "truthy (PList vs) = (vs \<noteq> [])"
| "truthy (PDict kvs) = (kvs \<noteq> [])"

subsection \<open>\<open>repr\<close> and \<open>str\<close>\<close>

definition digit_char :: "nat \<Rightarrow> uchar" where
  "digit_char d = of_nat (48 + d)"

fun dec :: "nat \<Rightarrow> pystr" where
  "dec n = (if n < 10 then [digit_char n] else dec (n div 10) @ [digit_char (n mod 10)])"

declare dec.simps [simp del]

definition repr_int :: "int \<Rightarrow> pystr" where
  "repr_int i = (if i < 0 then 0x2D # dec (nat (- i)) else dec (nat i))"

definition hexdigit :: "nat \<Rightarrow> uchar" where
  "hexdigit d = (if d < 10 then of_nat (48 + d) else of_nat (87 + d))"

definition hexn :: "nat \<Rightarrow> nat \<Rightarrow> pystr" where
  "hexn w n = map (\<lambda>i. hexdigit (n div 16 ^ i mod 16)) (rev [0..<w])"

text \<open>
  One character of \<open>repr(s)\<close> for a string quoted with \<open>q\<close>: the quote and the backslash
  are escaped with a backslash, tab, newline and carriage return get their letter, the
  other control characters \<open>\xNN\<close>, printable ASCII stands for itself, and a non-ASCII
  character stands for itself when printable and is written \<open>\xNN\<close>, \<open>\uNNNN\<close> or
  \<open>\UNNNNNNNN\<close> otherwise.
\<close>

definition repr_char :: "runtime \<Rightarrow> uchar \<Rightarrow> uchar \<Rightarrow> pystr" where
  "repr_char U q c =
     (if c = q \<or> c = 0x5C then [0x5C, c]
      else if c = 0x09 then [0x5C, 0x74]
      else if c = 0x0A then [0x5C, 0x6E]
      else if c = 0x0D then [0x5C, 0x72]
      else if c < 0x20 \<or> c = 0x7F then [0x5C, 0x78] @ hexn 2 (unat c)
      else if c < 0x7F then [c]
      else if isprintable U c then [c]
      else if c \<le> 0xFF then [0x5C, 0x78] @ hexn 2 (unat c)
      else if c \<le> 0xFFFF then [0x5C, 0x75] @ hexn 4 (unat c)
      else [0x5C, 0x55] @ hexn 8 (unat c))"

text \<open>
  The quote is the double quote when the string holds a single quote and no double
  quote, and the single quote otherwise.
\<close>

definition quote_of :: "pystr \<Rightarrow> uchar" where
  "quote_of s = (if 0x27 \<in> set s \<and> 0x22 \<notin> set s then 0x22 else 0x27)"

definition repr_str :: "runtime \<Rightarrow> pystr \<Rightarrow> pystr" where
  "repr_str U s = quote_of s # concat (map (repr_char U (quote_of s)) s) @ [quote_of s]"

fun join_comma :: "pystr list \<Rightarrow> pystr" where
  "join_comma [] = []"
| "join_comma [x] = x"
| "join_comma (x # y # ys) = x @ [0x2C, 0x20] @ join_comma (y # ys)"

fun repr :: "runtime \<Rightarrow> pyval \<Rightarrow> pystr" where
  "repr U PNone = ascii ''None''"
| "repr U (PBool b) = (if b then ascii ''True'' else ascii ''False'')"
| "repr U (PInt i) = repr_int i"
| "repr U (PStr s) = repr_str U s"
| "repr U (PList vs) = 0x5B # join_comma (map (repr U) vs) @ [0x5D]"
| "repr U (PDict kvs) =
     0x7B # join_comma (map (\<lambda>kv. repr_str U (fst kv) @ [0x3A, 0x20] @ repr U (snd kv)) kvs)
       @ [0x7D]"

text \<open>\<open>str(v)\<close>, also what an f-string puts for \<open>{v}\<close>: a string is itself, anything else its \<open>repr\<close>.\<close>

fun py_str :: "runtime \<Rightarrow> pyval \<Rightarrow> pystr" where
  "py_str U (PStr s) = s"
| "py_str U v = repr U v"

subsection \<open>Exceptions, dictionary access and iteration\<close>

text \<open>
  The exceptions of the model are all subclasses of \<open>Exception\<close>, which is what the
  source's handlers catch: the errors of attribute access, of types, of missing keys and
  of values, and \<open>ClientError\<close> for whatever the HTTP client raises.
\<close>

datatype exn = AttributeError | TypeError | KeyError | ValueError | ClientError

text \<open>\<open>d.get(k, default)\<close>: only a dictionary has the method.\<close>

definition py_get :: "pyval \<Rightarrow> pystr \<Rightarrow> pyval \<Rightarrow> exn + pyval" where
  "py_get d k dflt =
     (case d of
        PDict kvs \<Rightarrow> Inr (case map_of kvs k of Some v \<Rightarrow> v | None \<Rightarrow> dflt)
      | _ \<Rightarrow> Inl AttributeError)"


text \<open>
  What \<open>for x in v\<close> runs over: the elements of a list, the keys of a dictionary, the
  characters of a string; anything else is not iterable.
\<close>

definition py_iter :: "pyval \<Rightarrow> exn + pyval list" where
  "py_iter v =
     (case v of
        PList vs \<Rightarrow> Inr vs
      | PDict kvs \<Rightarrow> Inr (map (\<lambda>kv. PStr (fst kv)) kvs)
      | PStr s \<Rightarrow> Inr (map (\<lambda>c. PStr [c]) s)
      | _ \<Rightarrow> Inl TypeError)"


text \<open>\<open>needle in hay\<close> on strings.\<close>

fun contains :: "pystr \<Rightarrow> pystr \<Rightarrow> bool" where
  "contains needle [] = (needle = [])"
| "contains needle (c # hay) =
     (take (length needle) (c # hay) = needle \<or> contains needle hay)"

section \<open>The monitor's data\<close>

text \<open>
  A slot is the dictionary \<open>parse_slots\<close> builds, always with the same five keys, so
  \<open>s.get('date', '')\<close> and \<open>s['date']\<close> both read the field. The monitor holds the
  subscriber set, here the list of its distinct members in the order Python enumerates
  them, and the last snapshot.
\<close>

record slot =
  date :: pyval
  start_time :: pyval
  end_time :: pyval
  price :: pyval
  currency :: pyval

record monitor =
  subscribers :: "int list"
  last_slots :: "slot list"

section \<open>Parsing the slots response: \<open>parse_slots\<close>\<close>

text \<open>
  The body of the inner loop for one slot entry of a day: \<open>None\<close> when the entry is
  dropped, the record when it is appended.
\<close>

definition parse_slot :: "pyval \<Rightarrow> pyval \<Rightarrow> exn + slot option" where
  "parse_slot date_v slot_v =
     (case py_get slot_v (ascii ''available'') (PBool False) of
        Inl e \<Rightarrow> Inl e
      | Inr available \<Rightarrow>
          if \<not> truthy available then Inr None
          else
            (case py_get slot_v (ascii ''type'') PNone of
               Inl e \<Rightarrow> Inl e
             | Inr ty \<Rightarrow>
                 if ty \<noteq> PStr (ascii ''regular'') then Inr None
                 else
                   (case py_get slot_v (ascii ''from'') (PStr []) of
                      Inl e \<Rightarrow> Inl e
                    | Inr from_v \<Rightarrow>
                   (case py_get slot_v (ascii ''to'') (PStr []) of
                      Inl e \<Rightarrow> Inl e
                    | Inr to_v \<Rightarrow>
                   (case py_get slot_v (ascii ''price'') (PDict []) of
                      Inl e \<Rightarrow> Inl e
                    | Inr price1 \<Rightarrow>
                   (case py_get price1 (ascii ''value'') PNone of
                      Inl e \<Rightarrow> Inl e
                    | Inr value_v \<Rightarrow>
                   (case py_get slot_v (ascii ''price'') (PDict []) of
                      Inl e \<Rightarrow> Inl e
                    | Inr price2 \<Rightarrow>
                   (case py_get price2 (ascii ''currency'') (PStr [0x20BD]) of
                      Inl e \<Rightarrow> Inl e
                    | Inr currency_v \<Rightarrow>
                        Inr (Some \<lparr>date = date_v, start_time = from_v, end_time = to_v,
                                   price = value_v, currency = currency_v\<rparr>)))))))))"

text \<open>The inner loop \<open>for slot in slots\<close>, appending to \<open>available_slots\<close>.\<close>

fun parse_day_slots :: "pyval \<Rightarrow> pyval list \<Rightarrow> slot list \<Rightarrow> exn + slot list" where
  "parse_day_slots date_v [] available_slots = Inr available_slots"
| "parse_day_slots date_v (slot_v # rest) available_slots =
     (case parse_slot date_v slot_v of
        Inl e \<Rightarrow> Inl e
      | Inr None \<Rightarrow> parse_day_slots date_v rest available_slots
      | Inr (Some r) \<Rightarrow> parse_day_slots date_v rest (available_slots @ [r]))"

text \<open>The outer loop \<open>for day_slots in slots_list\<close>.\<close>

fun parse_days :: "pyval list \<Rightarrow> slot list \<Rightarrow> exn + slot list" where
  "parse_days [] available_slots = Inr available_slots"
| "parse_days (day_slots # rest) available_slots =
     (case py_get day_slots (ascii ''date'') (PStr []) of
        Inl e \<Rightarrow> Inl e
      | Inr date_v \<Rightarrow>
          (case py_get day_slots (ascii ''slots'') (PList []) of
             Inl e \<Rightarrow> Inl e
           | Inr slots \<Rightarrow>
               (case py_iter slots of
                  Inl e \<Rightarrow> Inl e
                | Inr items \<Rightarrow>
                    (case parse_day_slots date_v items available_slots of
                       Inl e \<Rightarrow> Inl e
                     | Inr available_slots' \<Rightarrow> parse_days rest available_slots'))))"

definition parse_slots :: "pyval \<Rightarrow> exn + slot list" where
  "parse_slots slots_data =
     (case py_get slots_data (ascii ''slots'') (PList []) of
        Inl e \<Rightarrow> Inl e
      | Inr slots_list \<Rightarrow>
          (case (if \<not> truthy slots_list
                 then py_get slots_data (ascii ''available_slots'') (PList [])
                 else Inr slots_list) of
             Inl e \<Rightarrow> Inl e
           | Inr slots_list' \<Rightarrow>
               (case py_iter slots_list' of
                  Inl e \<Rightarrow> Inl e
                | Inr days \<Rightarrow> parse_days days [])))"

section \<open>Fetching: \<open>check_slots\<close>\<close>












section \<open>Formatting: \<open>format_slots_message\<close>\<close>

subsection \<open>\<open>datetime.strptime(s, '%Y-%m-%d')\<close> and \<open>strftime\<close>\<close>

definition is_leap :: "nat \<Rightarrow> bool" where
  "is_leap y = (y mod 4 = 0 \<and> (y mod 400 = 0 \<or> y mod 100 \<noteq> 0))"

definition days_in_month :: "nat \<Rightarrow> nat \<Rightarrow> nat" where
  "days_in_month y m =
     (if m = 2 then (if is_leap y then 29 else 28)
      else if m = 4 \<or> m = 6 \<or> m = 9 \<or> m = 11 then 30
      else 31)"

definition digit_1_9 :: "uchar \<Rightarrow> bool" where
  "digit_1_9 c = (0x31 \<le> c \<and> c \<le> 0x39)"

definition ascii_value :: "uchar \<Rightarrow> nat" where
  "ascii_value c = unat c - 48"

text \<open>
  \<open>strptime\<close> matches the string against the regular expression of the format and
  converts the groups with \<open>int\<close>. The year is \<open>\d\d\d\d\<close>, where \<open>\d\<close> is any Unicode
  decimal digit.
\<close>

definition match_year :: "runtime \<Rightarrow> pystr \<Rightarrow> (nat \<times> pystr) option" where
  "match_year U s =
     (case s of
        a # b # c # d # rest \<Rightarrow>
          (case (decimal_value U a, decimal_value U b, decimal_value U c, decimal_value U d) of
             (Some w, Some x, Some y, Some z) \<Rightarrow> Some (1000 * w + 100 * x + 10 * y + z, rest)
           | _ \<Rightarrow> None)
      | _ \<Rightarrow> None)"

text \<open>
  The month is \<open>1[0-2]|0[1-9]|[1-9]\<close>. A hyphen must follow, so when an earlier
  alternative has matched two characters a later one cannot lead to a match.
\<close>

fun match_month :: "pystr \<Rightarrow> (nat \<times> pystr) option" where
  "match_month [] = None"
| "match_month [a] = (if digit_1_9 a then Some (ascii_value a, []) else None)"
| "match_month (a # b # rest) =
     (if a = 0x31 \<and> 0x30 \<le> b \<and> b \<le> 0x32 then Some (10 + ascii_value b, rest)
      else if a = 0x30 \<and> digit_1_9 b then Some (ascii_value b, rest)
      else if digit_1_9 a then Some (ascii_value a, b # rest)
      else None)"

text \<open>
  The day is \<open>3[01]|[12]\d|0[1-9]|[1-9]| [1-9]\<close> and ends the expression: the first
  alternative that matches is taken.
\<close>

fun match_day :: "runtime \<Rightarrow> pystr \<Rightarrow> (nat \<times> pystr) option" where
  "match_day U [] = None"
| "match_day U [a] = (if digit_1_9 a then Some (ascii_value a, []) else None)"
| "match_day U (a # b # rest) =
     (if a = 0x33 \<and> (b = 0x30 \<or> b = 0x31) then Some (30 + ascii_value b, rest)
      else if (a = 0x31 \<or> a = 0x32) \<and> decimal_value U b \<noteq> None
        then Some (10 * ascii_value a + the (decimal_value U b), rest)
      else if a = 0x30 \<and> digit_1_9 b then Some (ascii_value b, rest)
      else if digit_1_9 a then Some (ascii_value a, b # rest)
      else if a = 0x20 \<and> digit_1_9 b then Some (ascii_value b, rest)
      else None)"

text \<open>
  An argument that is not a string is a \<open>TypeError\<close>; a string that does not match, has
  text left over after the match, or names no day of the calendar (years 1 to 9999) is a
  \<open>ValueError\<close>. The result is the year, the month and the day.
\<close>

definition expect_hyphen :: "pystr \<Rightarrow> pystr option" where
  "expect_hyphen r = (case r of [] \<Rightarrow> None | c # rest \<Rightarrow> if c = 0x2D then Some rest else None)"

definition strptime :: "runtime \<Rightarrow> pyval \<Rightarrow> exn + nat \<times> nat \<times> nat" where
  "strptime U v =
     (case v of
        PStr s \<Rightarrow>
          (case match_year U s of
             None \<Rightarrow> Inl ValueError
           | Some (y, r1) \<Rightarrow>
          (case expect_hyphen r1 of
             None \<Rightarrow> Inl ValueError
           | Some r2 \<Rightarrow>
          (case match_month r2 of
             None \<Rightarrow> Inl ValueError
           | Some (m, r3) \<Rightarrow>
          (case expect_hyphen r3 of
             None \<Rightarrow> Inl ValueError
           | Some r4 \<Rightarrow>
          (case match_day U r4 of
             None \<Rightarrow> Inl ValueError
           | Some (d, r5) \<Rightarrow>
               if r5 = [] \<and> 1 \<le> y \<and> 1 \<le> d \<and> d \<le> days_in_month y m
               then Inr (y, m, d) else Inl ValueError)))))
      | _ \<Rightarrow> Inl TypeError)"

definition pad2 :: "nat \<Rightarrow> pystr" where
  "pad2 n = (if n < 10 then 0x30 # dec n else dec n)"

definition pad4 :: "nat \<Rightarrow> pystr" where
  "pad4 n = replicate (4 - length (dec n)) 0x30 @ dec n"

text \<open>\<open>strftime('%d.%m.%Y')\<close>; whether \<open>%Y\<close> pads a year below 1000 is the platform's choice.\<close>

definition strftime_dmy :: "runtime \<Rightarrow> nat \<times> nat \<times> nat \<Rightarrow> pystr" where
  "strftime_dmy U dt =
     (case dt of (y, m, d) \<Rightarrow>
        pad2 d @ [0x2E] @ pad2 m @ [0x2E] @ (if year_zero_padded U then pad4 y else dec y))"

text \<open>\<open>strftime('%H:%M:%S')\<close> of the clock's reading, given as hour, minute and second.\<close>

definition strftime_hms :: "nat \<times> nat \<times> nat \<Rightarrow> pystr" where
  "strftime_hms t = (case t of (h, m, s) \<Rightarrow> pad2 h @ [0x3A] @ pad2 m @ [0x3A] @ pad2 s)"

subsection \<open>The message\<close>

definition no_slots_text :: pystr where
  "no_slots_text =
     [0x274C] @ ascii '' '' @ [0x41D, 0x435, 0x442] @ ascii '' ''
       @ [0x434, 0x43E, 0x441, 0x442, 0x443, 0x43F, 0x43D, 0x44B, 0x445] @ ascii '' ''
       @ [0x441, 0x43B, 0x43E, 0x442, 0x43E, 0x432]"

definition header_text :: pystr where
  "header_text =
     [0x1F389] @ ascii '' <b>''
       @ [0x414, 0x43E, 0x441, 0x442, 0x443, 0x43F, 0x43D, 0x44B, 0x435] @ ascii '' ''
       @ [0x441, 0x43B, 0x43E, 0x442, 0x44B] @ ascii '' '' @ [0x434, 0x43B, 0x44F] @ ascii '' ''
       @ [0x434, 0x43E, 0x441, 0x442, 0x430, 0x432, 0x43A, 0x438] @ ascii '':</b>''
       @ [0x0A, 0x0A]"

definition more_text :: "nat \<Rightarrow> pystr" where
  "more_text n =
     ascii ''<i>... '' @ [0x438] @ ascii '' '' @ [0x435, 0x449, 0x451] @ ascii '' '' @ dec n
       @ ascii '' '' @ [0x441, 0x43B, 0x43E, 0x442, 0x43E, 0x432] @ ascii ''</i>'' @ [0x0A]"

definition footer_text :: "nat \<times> nat \<times> nat \<Rightarrow> pystr" where
  "footer_text now =
     [0x0A, 0x1F550] @ ascii '' <i>''
       @ [0x41F, 0x440, 0x43E, 0x432, 0x435, 0x440, 0x435, 0x43D, 0x43E] @ ascii '': ''
       @ strftime_hms now @ ascii ''</i>''"

text \<open>
  One pass of the loop body for the slot at position \<open>i\<close>. Only \<open>strptime\<close> can raise,
  and it runs before anything is appended: the handler logs and goes on with the
  message as it was.
\<close>

definition format_step :: "runtime \<Rightarrow> pystr \<Rightarrow> nat \<Rightarrow> slot \<Rightarrow> pystr" where
  "format_step U message i s =
     (case strptime U (date s) of
        Inl e \<Rightarrow> message
      | Inr date_obj \<Rightarrow>
          let date_str = strftime_dmy U date_obj;
              message = message @ ascii ''<b>'' @ dec i @ ascii ''. '' @ [0x1F4C5] @ ascii '' ''
                          @ date_str @ ascii ''</b>'' @ [0x0A];
              message = message @ ascii ''   '' @ [0x1F552] @ ascii '' ''
                          @ py_str U (start_time s) @ ascii '' - '' @ py_str U (end_time s)
                          @ [0x0A];
              message = (if truthy (price s)
                         then message @ ascii ''   '' @ [0x1F4B0] @ ascii '' ''
                                @ py_str U (price s) @ ascii '' '' @ py_str U (currency s)
                                @ [0x0A]
                         else message)
          in message @ [0x0A])"

text \<open>The loop \<open>for i, slot in enumerate(slots[:15], 1)\<close>.\<close>

fun format_entries :: "runtime \<Rightarrow> pystr \<Rightarrow> nat \<Rightarrow> slot list \<Rightarrow> pystr" where
  "format_entries U message i [] = message"
| "format_entries U message i (s # rest) =
     format_entries U (format_step U message i s) (Suc i) rest"

definition format_slots_message :: "runtime \<Rightarrow> nat \<times> nat \<times> nat \<Rightarrow> slot list \<Rightarrow> pystr" where
  "format_slots_message U now slots =
     (if slots = [] then no_slots_text
      else
        let message = header_text;
            message = format_entries U message 1 (take 15 slots);
            message = (if length slots > 15 then message @ more_text (length slots - 15)
                       else message)
        in message @ footer_text now)"

section \<open>Change detection: \<open>has_new_slots\<close>\<close>

definition slot_key :: "slot \<Rightarrow> pyval \<times> pyval" where
  "slot_key s = (date s, start_time s)"

text \<open>\<open>str\<close> of a list of 2-tuples: \<open>[(a, b), (c, d)]\<close>.\<close>

definition repr_pair :: "runtime \<Rightarrow> pyval \<times> pyval \<Rightarrow> pystr" where
  "repr_pair U p = 0x28 # repr U (fst p) @ [0x2C, 0x20] @ repr U (snd p) @ [0x29]"

definition str_keys :: "runtime \<Rightarrow> (pyval \<times> pyval) list \<Rightarrow> pystr" where
  "str_keys U ks = 0x5B # join_comma (map (repr_pair U) ks) @ [0x5D]"

text \<open>The result is the returned flag and the monitor after the call.\<close>

definition has_new_slots :: "runtime \<Rightarrow> monitor \<Rightarrow> slot list \<Rightarrow> bool \<times> monitor" where
  "has_new_slots U st current_slots =
     (if current_slots = [] then (False, st)
      else
        let current_slots_str = str_keys U (map slot_key current_slots);
            last_slots_str = str_keys U (map slot_key (last_slots st));
            has_changes = (current_slots_str \<noteq> last_slots_str)
        in if has_changes then (True, st\<lparr>last_slots := current_slots\<rparr>)
           else (False, st))"

section \<open>Notification: \<open>send_notifications\<close>\<close>

text \<open>
  \<open>set.remove\<close> raises \<open>KeyError\<close> on a member that is not there.
\<close>

definition set_remove :: "int \<Rightarrow> int list \<Rightarrow> exn + int list" where
  "set_remove x xs = (if x \<in> set xs then Inr (removeAll x xs) else Inl KeyError)"

text \<open>The test the handler makes on the text of the exception.\<close>

definition unreachable :: "runtime \<Rightarrow> pystr \<Rightarrow> bool" where
  "unreachable U e =
     (contains (ascii ''bot was blocked'') (str_lower U e)
      \<or> contains (ascii ''chat not found'') (str_lower U e))"

text \<open>What the function writes to the log.\<close>

datatype log_event =
    NoSubscribers
  | Sent int
  | Failed int pystr
  | Removed int
  | Summary nat nat

text \<open>
  The loop over \<open>list(self.subscribers)\<close>. \<open>deliver user_id message\<close> is what
  \<open>send_message\<close> does for that chat: \<open>None\<close> when it returns, \<open>Some e\<close> when it raises an
  exception whose text is \<open>e\<close>. The loop carries the subscriber set, the counter and the
  log; an exception raised inside the handler leaves the loop.
\<close>

fun notify_loop ::
  "runtime \<Rightarrow> (int \<Rightarrow> pystr \<Rightarrow> pystr option) \<Rightarrow> pystr \<Rightarrow> int list
    \<Rightarrow> int list \<times> nat \<times> log_event list \<Rightarrow> exn + int list \<times> nat \<times> log_event list" where
  "notify_loop U deliver message [] acc = Inr acc"
| "notify_loop U deliver message (user_id # rest) (subs, successful_sends, log) =
     (case deliver user_id message of
        None \<Rightarrow>
          notify_loop U deliver message rest
            (subs, successful_sends + 1, log @ [Sent user_id])
      | Some e \<Rightarrow>
          if unreachable U e then
            (case set_remove user_id subs of
               Inl err \<Rightarrow> Inl err
             | Inr subs' \<Rightarrow>
                 notify_loop U deliver message rest
                   (subs', successful_sends, log @ [Failed user_id e, Removed user_id]))
          else
            notify_loop U deliver message rest
              (subs, successful_sends, log @ [Failed user_id e]))"

text \<open>
  The outcome of a call: the monitor afterwards, the value the call returns and the log
  lines it wrote. Both ways out of the function return \<open>None\<close>.
\<close>

record notify_result =
  monitor_after :: monitor
  returned :: pyval
  logged :: "log_event list"

definition send_notifications ::
  "runtime \<Rightarrow> (int \<Rightarrow> pystr \<Rightarrow> pystr option) \<Rightarrow> nat \<times> nat \<times> nat \<Rightarrow> monitor \<Rightarrow> slot list
    \<Rightarrow> exn + notify_result" where
  "send_notifications U deliver now st slots =
     (if subscribers st = [] then
        Inr \<lparr>monitor_after = st, returned = PNone, logged = [NoSubscribers]\<rparr>
      else
        let message = format_slots_message U now slots in
        (case notify_loop U deliver message (subscribers st) (subscribers st, 0, []) of
           Inl e \<Rightarrow> Inl e
         | Inr (subs, successful_sends, log) \<Rightarrow>
             Inr \<lparr>monitor_after = st\<lparr>subscribers := subs\<rparr>, returned = PNone,
                  logged = log @ [Summary successful_sends (length subs)]\<rparr>))"

section \<open>Auxiliary definitions\<close>

subsection \<open>Reading \<open>repr\<close> back\<close>

definition isdig :: "uchar \<Rightarrow> bool" where
  "isdig c = (0x30 \<le> c \<and> c \<le> 0x39)"

definition undec :: "pystr \<Rightarrow> nat" where
  "undec s = foldl (\<lambda>a c. 10 * a + (unat c - 48)) 0 s"

definition nodig :: "pystr \<Rightarrow> bool" where
  "nodig r = (case r of [] \<Rightarrow> True | c # _ \<Rightarrow> \<not> isdig c)"

definition unhexdigit :: "uchar \<Rightarrow> nat" where
  "unhexdigit c = (if c \<le> 0x39 then unat c - 48 else unat c - 87)"

definition unhex :: "pystr \<Rightarrow> nat" where
  "unhex s = foldl (\<lambda>a c. 16 * a + unhexdigit c) 0 s"

text \<open>Reading one character of a string literal's body back.\<close>

definition unescape :: "pystr \<Rightarrow> uchar \<times> pystr" where
  "unescape xs =
     (case xs of
        [] \<Rightarrow> (0, [])
      | a # rest \<Rightarrow>
          if a \<noteq> 0x5C then (a, rest)
          else (case rest of
                  [] \<Rightarrow> (0, [])
                | b # rest' \<Rightarrow>
                    if b = 0x74 then (0x09, rest')
                    else if b = 0x6E then (0x0A, rest')
                    else if b = 0x72 then (0x0D, rest')
                    else if b = 0x78 then (of_nat (unhex (take 2 rest')), drop 2 rest')
                    else if b = 0x75 then (of_nat (unhex (take 4 rest')), drop 4 rest')
                    else if b = 0x55 then (of_nat (unhex (take 8 rest')), drop 8 rest')
                    else (b, rest')))"

definition isdelim :: "uchar \<Rightarrow> bool" where
  "isdelim c = (c = 0x2C \<or> c = 0x5D \<or> c = 0x29 \<or> c = 0x7D)"

definition delimited :: "pystr \<Rightarrow> bool" where
  "delimited r = (case r of [] \<Rightarrow> False | c # _ \<Rightarrow> isdelim c)"

fun head_ok :: "pyval \<Rightarrow> uchar \<Rightarrow> bool" where
  "head_ok PNone a = (a = 0x4E)"
| "head_ok (PBool b) a = (a = 0x54 \<or> a = 0x46)"
| "head_ok (PInt i) a = (a = 0x2D \<or> isdig a)"
| "head_ok (PStr s) a = (a = 0x22 \<or> a = 0x27)"
| "head_ok (PList vs) a = (a = 0x5B)"
| "head_ok (PDict kvs) a = (a = 0x7B)"

subsection \<open>Reading the notification log\<close>

text \<open>The chats the log records a delivery attempt for, in order.\<close>

fun attempts :: "log_event list \<Rightarrow> int list" where
  "attempts [] = []"
| "attempts (Sent u # es) = u # attempts es"
| "attempts (Failed u e # es) = u # attempts es"
| "attempts (ev # es) = attempts es"

text \<open>The delivery to a chat raises with a text the handler takes as unreachable.\<close>

definition pruned :: "runtime \<Rightarrow> (int \<Rightarrow> pystr \<Rightarrow> pystr option) \<Rightarrow> pystr \<Rightarrow> int \<Rightarrow> bool" where
  "pruned U deliver message u =
     (case deliver u message of None \<Rightarrow> False | Some e \<Rightarrow> unreachable U e)"

subsection \<open>The entries of a message\<close>

text \<open>The price line of an entry.\<close>

definition price_line :: "runtime \<Rightarrow> slot \<Rightarrow> pystr" where
  "price_line U s =
     ascii ''   '' @ [0x1F4B0] @ ascii '' '' @ py_str U (price s) @ ascii '' ''
       @ py_str U (currency s) @ [0x0A]"

text \<open>The entry of the slot at position \<open>i\<close>, with its date already reformatted.\<close>

definition entry_text :: "runtime \<Rightarrow> nat \<Rightarrow> pystr \<Rightarrow> slot \<Rightarrow> pystr" where
  "entry_text U i date_str s =
     ascii ''<b>'' @ dec i @ ascii ''. '' @ [0x1F4C5] @ ascii '' '' @ date_str @ ascii ''</b>''
       @ [0x0A]
       @ ascii ''   '' @ [0x1F552] @ ascii '' '' @ py_str U (start_time s) @ ascii '' - ''
       @ py_str U (end_time s) @ [0x0A]
       @ (if truthy (price s) then price_line U s else [])
       @ [0x0A]"

text \<open>
  The entries a pass over the slots renders, in order: a slot whose date does not parse
  gives none, and the position still advances.
\<close>

fun rendered_entries :: "runtime \<Rightarrow> nat \<Rightarrow> slot list \<Rightarrow> pystr list" where
  "rendered_entries U i [] = []"
| "rendered_entries U i (s # rest) =
     (case strptime U (date s) of
        Inl e \<Rightarrow> rendered_entries U (Suc i) rest
      | Inr dt \<Rightarrow> entry_text U i (strftime_dmy U dt) s # rendered_entries U (Suc i) rest)"

text \<open>The date of the slot is accepted by \<open>strptime\<close>.\<close>

definition parses :: "runtime \<Rightarrow> slot \<Rightarrow> bool" where
  "parses U s = (case strptime U (date s) of Inl e \<Rightarrow> False | Inr dt \<Rightarrow> True)"

text \<open>The runtime gives the ten ASCII digits their values.\<close>

definition ascii_digits :: "runtime \<Rightarrow> bool" where
  "ascii_digits U =
     list_all (\<lambda>k. decimal_value U (digit_char k) = Some k) [0, 1, 2, 3, 4, 5, 6, 7, 8, 9]"

text \<open>The date of the calendar written \<open>YYYY-MM-DD\<close>.\<close>

definition iso_date :: "nat \<Rightarrow> nat \<Rightarrow> nat \<Rightarrow> pystr" where
  "iso_date y m d = pad4 y @ [0x2D] @ pad2 m @ [0x2D] @ pad2 d"

subsection \<open>The slots of a response\<close>

text \<open>
  The response as the function is meant to read it. \<open>lookup\<close> is \<open>get\<close> made total: a value
  that is no dictionary has no keys.
\<close>

definition lookup :: "pyval \<Rightarrow> pystr \<Rightarrow> pyval \<Rightarrow> pyval" where
  "lookup d k dflt =
     (case d of
        PDict kvs \<Rightarrow> (case map_of kvs k of Some v \<Rightarrow> v | None \<Rightarrow> dflt)
      | _ \<Rightarrow> dflt)"

definition is_dict :: "pyval \<Rightarrow> bool" where
  "is_dict v = (case v of PDict kvs \<Rightarrow> True | _ \<Rightarrow> False)"

definition is_list :: "pyval \<Rightarrow> bool" where
  "is_list v = (case v of PList vs \<Rightarrow> True | _ \<Rightarrow> False)"

text \<open>The elements of a list; no other value has any.\<close>

definition elements :: "pyval \<Rightarrow> pyval list" where
  "elements v = (case v of PList vs \<Rightarrow> vs | _ \<Rightarrow> [])"

text \<open>A slot entry counts: its availability flag is truthy and its type is \<open>regular\<close>.\<close>

definition qualifies :: "pyval \<Rightarrow> bool" where
  "qualifies slot_v =
     (truthy (lookup slot_v (ascii ''available'') (PBool False))
      \<and> lookup slot_v (ascii ''type'') PNone = PStr (ascii ''regular''))"

text \<open>The record of a slot entry that counts, for the date of its day.\<close>

definition slot_record :: "pyval \<Rightarrow> pyval \<Rightarrow> slot" where
  "slot_record date_v slot_v =
     \<lparr>date = date_v,
      start_time = lookup slot_v (ascii ''from'') (PStr []),
      end_time = lookup slot_v (ascii ''to'') (PStr []),
      price = lookup (lookup slot_v (ascii ''price'') (PDict [])) (ascii ''value'') PNone,
      currency = lookup (lookup slot_v (ascii ''price'') (PDict [])) (ascii ''currency'')
                   (PStr [0x20BD])\<rparr>"

text \<open>The list of days: under \<open>slots\<close>, or under \<open>available_slots\<close> when that is missing or empty.\<close>

definition slot_list_of :: "pyval \<Rightarrow> pyval" where
  "slot_list_of data =
     (if truthy (lookup data (ascii ''slots'') (PList []))
      then lookup data (ascii ''slots'') (PList [])
      else lookup data (ascii ''available_slots'') (PList []))"

definition day_slots_of :: "pyval \<Rightarrow> pyval" where
  "day_slots_of day = lookup day (ascii ''slots'') (PList [])"

text \<open>
  The shape the function expects: a dictionary whose list of days holds dictionaries,
  each with a list of slot entries that are dictionaries, where the price of an entry
  that counts is a dictionary when it is there.
\<close>

definition well_formed_slot :: "pyval \<Rightarrow> bool" where
  "well_formed_slot slot_v =
     (is_dict slot_v
      \<and> (if qualifies slot_v then is_dict (lookup slot_v (ascii ''price'') (PDict [])) else True))"

definition well_formed_day :: "pyval \<Rightarrow> bool" where
  "well_formed_day day =
     (is_dict day \<and> is_list (day_slots_of day)
      \<and> list_all well_formed_slot (elements (day_slots_of day)))"

definition well_formed :: "pyval \<Rightarrow> bool" where
  "well_formed data =
     (is_dict data \<and> is_list (slot_list_of data)
      \<and> list_all well_formed_day (elements (slot_list_of data)))"

text \<open>The records of the entries that count, day by day.\<close>

definition day_records :: "pyval \<Rightarrow> slot list" where
  "day_records day =
     map (slot_record (lookup day (ascii ''date'') (PStr [])))
       (filter qualifies (elements (day_slots_of day)))"

definition available_records :: "pyval \<Rightarrow> slot list" where
  "available_records data = concat (map day_records (elements (slot_list_of data)))"

subsection \<open>Examples\<close>

text \<open>
  A runtime for the examples. On ASCII text it does what CPython does; every character is
  taken as printable and only the ASCII digits as decimal digits.
\<close>

definition ascii_runtime :: runtime where
  "ascii_runtime =
     \<lparr>isprintable = (\<lambda>c. True),
      decimal_value = (\<lambda>c. if 0x30 \<le> c \<and> c \<le> 0x39 then Some (unat c - 48) else None),
      str_lower = map (\<lambda>c. if 0x41 \<le> c \<and> c \<le> 0x5A then c + 0x20 else c),
      year_zero_padded = False\<rparr>"

definition sample_slot :: "string \<Rightarrow> string \<Rightarrow> int \<Rightarrow> slot" where
  "sample_slot d t p =
     \<lparr>date = PStr (ascii d), start_time = PStr (ascii t), end_time = PStr (ascii ''23:59''),
      price = PInt p, currency = PStr [0x20BD]\<rparr>"

text \<open>Deliveries: chat 1 is reached, chat 2 has blocked the bot, any other chat times out.\<close>

definition sample_deliver :: "int \<Rightarrow> pystr \<Rightarrow> pystr option" where
  "sample_deliver u message =
     (if u = 1 then None
      else if u = 2 then Some (ascii ''Forbidden: Bot was blocked by the user'')
      else Some (ascii ''Timed out''))"

text \<open>Twenty slots, the first from a day entry that has no date.\<close>

definition twenty_slots :: "slot list" where
  "twenty_slots =
     sample_slot [] ''10:00'' 99 # replicate 19 (sample_slot ''2024-03-07'' ''10:00'' 99)"

text \<open>A response with one day and three slot entries, of which the first counts.\<close>

definition sample_response :: pyval where
  "sample_response =
     PDict [(ascii ''slots'', PList [PDict
       [(ascii ''date'', PStr (ascii ''2024-03-07'')),
        (ascii ''slots'', PList
          [PDict [(ascii ''available'', PBool True), (ascii ''type'', PStr (ascii ''regular'')),
                  (ascii ''from'', PStr (ascii ''10:00'')), (ascii ''to'', PStr (ascii ''11:00'')),
                  (ascii ''price'', PDict [(ascii ''value'', PInt 99),
                                           (ascii ''currency'', PStr (ascii ''RUB''))])],
           PDict [(ascii ''available'', PBool False), (ascii ''type'', PStr (ascii ''regular''))],
           PDict [(ascii ''available'', PBool True), (ascii ''type'', PStr (ascii ''express''))]])]])]"


section \<open>\<open>repr\<close> is injective\<close>

text \<open>
  \<open>has_new_slots\<close> compares the \<open>str\<close> of two lists of pairs. That this is the comparison
  of the lists rests on \<open>repr\<close> being read back in one way only: decimal digits end at
  the first character that is no digit, the characters of a string literal form a prefix
  code that its quote ends, and the elements of a list, a dictionary or a tuple are each
  followed by a comma or the closing bracket.
\<close>


lemma below_ten: "d < 10 \<Longrightarrow> d \<in> {0, 1, 2, 3, 4, 5, 6, 7, 8, 9::nat}"
  by auto

lemma below_16: "d < 16 \<Longrightarrow> d \<in> {0, 1, 2, 3, 4, 5, 6, 7, 8, 9, 10, 11, 12, 13, 14, 15::nat}"
  by simp arith

lemma isdig_digit_char: "d < 10 \<Longrightarrow> isdig (digit_char d)"
  using below_ten [of d] by (auto simp: isdig_def digit_char_def)

lemma unat_digit_char: "d < 10 \<Longrightarrow> unat (digit_char d) = 48 + d"
  using below_ten [of d] by (auto simp: digit_char_def)

lemma dec_digits: "\<forall>c \<in> set (dec n). isdig c"
proof (induction n rule: dec.induct)
  case (1 n)
  show ?case
  proof (cases "n < 10")
    case True
    then show ?thesis by (simp add: dec.simps [of n] isdig_digit_char)
  next
    case False
    with 1 show ?thesis by (simp add: dec.simps [of n] isdig_digit_char)
  qed
qed

lemma dec_nonempty: "dec n \<noteq> []"
  by (simp add: dec.simps [of n])

lemma undec_dec: "undec (dec n) = n"
proof (induction n rule: dec.induct)
  case (1 n)
  show ?case
  proof (cases "n < 10")
    case True
    then show ?thesis by (simp add: dec.simps [of n] undec_def unat_digit_char)
  next
    case False
    with 1 have "undec (dec (n div 10)) = n div 10" by simp
    with False show ?thesis
      by (simp add: dec.simps [of n] undec_def unat_digit_char)
  qed
qed

lemma dec_inj: "dec n = dec m \<Longrightarrow> n = m"
  by (metis undec_dec)

lemma takeWhile_dec: "nodig r \<Longrightarrow> takeWhile isdig (dec n @ r) = dec n"
  using dec_digits [of n] by (cases r) (auto simp: nodig_def takeWhile_append2 intro: takeWhile_eq_all_conv[THEN iffD2])

lemma dec_append_inj:
  assumes "dec n @ r = dec m @ r'" "nodig r" "nodig r'"
  shows "n = m \<and> r = r'"
proof -
  have "dec n = dec m"
    using assms by (metis takeWhile_dec)
  with assms show ?thesis by (simp add: dec_inj)
qed

lemma hexdigit_inj: "a < 16 \<Longrightarrow> b < 16 \<Longrightarrow> hexdigit a = hexdigit b \<Longrightarrow> a = b"
  using below_16 [of a] below_16 [of b] by (auto simp: hexdigit_def)

lemma hexn_inj: "hexn w n = hexn w m \<Longrightarrow> n mod 16 ^ w = m mod 16 ^ w"
proof (induction w arbitrary: n m)
  case 0
  then show ?case by simp
next
  case (Suc w)
  from Suc.prems have d: "hexdigit (n div 16 ^ w mod 16) = hexdigit (m div 16 ^ w mod 16)"
    and r: "hexn w n = hexn w m"
    by (simp_all add: hexn_def)
  from d have "n div 16 ^ w mod 16 = m div 16 ^ w mod 16"
    by (rule hexdigit_inj [rotated 2]) simp_all
  moreover from r have "n mod 16 ^ w = m mod 16 ^ w" by (rule Suc.IH)
  ultimately show ?case
    by (metis mod_mult2_eq power_Suc2)
qed

lemma length_hexn: "length (hexn w n) = w"
  by (simp add: hexn_def)

lemma hexn_append_inj:
  assumes "hexn w n @ r = hexn w m @ r'" "n < 16 ^ w" "m < 16 ^ w"
  shows "n = m \<and> r = r'"
proof -
  from assms(1) have "hexn w n = hexn w m \<and> r = r'"
    by (simp add: length_hexn)
  with hexn_inj [of w n m] assms(2,3) show ?thesis by simp
qed

lemma unhexdigit_hexdigit: "d < 16 \<Longrightarrow> unhexdigit (hexdigit d) = d"
  using below_16 [of d] by (auto simp: hexdigit_def unhexdigit_def)

lemma hexn_Suc: "hexn (Suc w) n = hexdigit (n div 16 ^ w mod 16) # hexn w n"
  by (simp add: hexn_def)

lemma foldl_hexn:
  "foldl (\<lambda>a c. 16 * a + unhexdigit c) a (hexn w n) = a * 16 ^ w + n mod 16 ^ w"
proof (induction w arbitrary: a)
  case 0
  then show ?case by (simp add: hexn_def)
next
  case (Suc w)
  have "n mod (16 ^ w * 16) = 16 ^ w * (n div 16 ^ w mod 16) + n mod 16 ^ w"
    by (rule mod_mult2_eq)
  then have "n mod 16 ^ Suc w = (n div 16 ^ w mod 16) * 16 ^ w + n mod 16 ^ w"
    by (simp only: power_Suc2 mult.commute)
  moreover have
    "foldl (\<lambda>a c. 16 * a + unhexdigit c) a (hexn (Suc w) n)
     = (16 * a + n div 16 ^ w mod 16) * 16 ^ w + n mod 16 ^ w"
    by (simp only: hexn_Suc foldl_Cons Suc.IH unhexdigit_hexdigit [of "n div 16 ^ w mod 16"])
  ultimately show ?case
    by (simp only: power_Suc algebra_simps)
qed

lemma unhex_hexn: "n < 16 ^ w \<Longrightarrow> unhex (hexn w n) = n"
  by (simp add: unhex_def foldl_hexn)

lemma unat_bound2: "(c::uchar) \<le> 0xFF \<Longrightarrow> unat c < 16 ^ 2"
  by (simp add: word_le_nat_alt)

lemma unat_bound4: "(c::uchar) \<le> 0xFFFF \<Longrightarrow> unat c < 16 ^ 4"
  by (simp add: word_le_nat_alt)

lemma unat_bound8: "unat (c::uchar) < 16 ^ 8"
  using unsigned_less [of c, where ?'a = nat] by simp

lemma unescape_hex:
  "n < 16 ^ w \<Longrightarrow> unhex (take w (hexn w n @ X)) = n \<and> drop w (hexn w n @ X) = X"
  by (simp add: length_hexn unhex_hexn)

lemma unescape_repr_char:
  assumes q: "q = 0x22 \<or> q = 0x27"
  shows "unescape (repr_char U q c @ X) = (c, X)"
proof -
  have x2: "c \<le> 0xFF \<Longrightarrow> unescape ([0x5C, 0x78] @ hexn 2 (unat c) @ X) = (c, X)"
    using unescape_hex [OF unat_bound2, of c X]
    by (simp add: unescape_def del: take_append drop_append)
  have x4: "c \<le> 0xFFFF \<Longrightarrow> unescape ([0x5C, 0x75] @ hexn 4 (unat c) @ X) = (c, X)"
    using unescape_hex [OF unat_bound4, of c X]
    by (simp add: unescape_def del: take_append drop_append)
  have x8: "unescape ([0x5C, 0x55] @ hexn 8 (unat c) @ X) = (c, X)"
    using unescape_hex [OF unat_bound8, of c X]
    by (simp add: unescape_def del: take_append drop_append)
  have nc: "\<not> (c < 0x20 \<or> c = 0x7F) \<Longrightarrow> c \<noteq> 0x09 \<and> c \<noteq> 0x0A \<and> c \<noteq> 0x0D"
    by (auto simp: word_less_nat_alt)
  have hi: "\<not> c < 0x7F \<Longrightarrow> c \<noteq> 0x5C \<and> c \<noteq> 0x22 \<and> c \<noteq> 0x27"
    by (auto simp: word_less_nat_alt)
  show ?thesis
  proof (cases "c = q \<or> c = 0x5C")
    case True
    with q show ?thesis by (auto simp: repr_char_def unescape_def)
  next
    case n1: False
    show ?thesis
    proof (cases "c = 0x09 \<or> c = 0x0A \<or> c = 0x0D")
      case True
      with n1 q show ?thesis by (auto simp: repr_char_def unescape_def)
    next
      case n2: False
      show ?thesis
      proof (cases "c < 0x20 \<or> c = 0x7F")
        case True
        then have "c \<le> 0xFF" by (auto simp: word_le_nat_alt word_less_nat_alt)
        from x2 [OF this] True n1 n2 show ?thesis by (simp add: repr_char_def)
      next
        case n3: False
        show ?thesis
        proof (cases "c < 0x7F \<or> isprintable U c")
          case True
          with n1 n2 n3 show ?thesis by (auto simp: repr_char_def unescape_def)
        next
          case n4: False
          show ?thesis
          proof (cases "c \<le> 0xFF")
            case True
            from x2 [OF this] True n1 n2 n3 n4 show ?thesis by (simp add: repr_char_def)
          next
            case n5: False
            show ?thesis
            proof (cases "c \<le> 0xFFFF")
              case True
              from x4 [OF this] True n1 n2 n3 n4 n5 show ?thesis by (simp add: repr_char_def)
            next
              case False
              with x8 n1 n2 n3 n4 n5 show ?thesis by (simp add: repr_char_def)
            qed
          qed
        qed
      qed
    qed
  qed
qed

lemma repr_char_inj:
  assumes "q = 0x22 \<or> q = 0x27" "repr_char U q c @ X = repr_char U q d @ Y"
  shows "c = d \<and> X = Y"
proof -
  have "unescape (repr_char U q c @ X) = unescape (repr_char U q d @ Y)"
    by (simp only: assms(2))
  then show ?thesis
    by (simp only: unescape_repr_char [OF assms(1)] prod.inject)
qed

lemma repr_char_head:
  assumes "q = 0x22 \<or> q = 0x27"
  shows "\<exists>a rest. repr_char U q c = a # rest \<and> a \<noteq> q"
proof -
  have "repr_char U q c = [c] \<and> \<not> (c = q \<or> c = 0x5C) \<or> (\<exists>rest. repr_char U q c = 0x5C # rest)"
    by (simp add: repr_char_def)
  with assms show ?thesis by auto
qed

lemma quote_of_cases: "quote_of s = 0x22 \<or> quote_of s = 0x27"
  by (simp add: quote_of_def)

lemma body_inj:
  assumes q: "q = 0x22 \<or> q = 0x27"
  shows "concat (map (repr_char U q) s) @ q # r = concat (map (repr_char U q) t) @ q # r'
         \<Longrightarrow> s = t \<and> r = r'"
proof (induction s arbitrary: t)
  case Nil
  show ?case
  proof (cases t)
    case Nil
    with Nil.prems show ?thesis by simp
  next
    case (Cons d t')
    from repr_char_head [OF q, of U d] obtain a rest
      where "repr_char U q d = a # rest" "a \<noteq> q" by blast
    with Nil.prems Cons show ?thesis by simp
  qed
next
  case (Cons c s)
  show ?case
  proof (cases t)
    case Nil
    from repr_char_head [OF q, of U c] obtain a rest
      where "repr_char U q c = a # rest" "a \<noteq> q" by blast
    with Cons.prems Nil show ?thesis by simp
  next
    case (Cons d t')
    with Cons.prems have
      "repr_char U q c @ (concat (map (repr_char U q) s) @ q # r)
       = repr_char U q d @ (concat (map (repr_char U q) t') @ q # r')"
      by simp
    from repr_char_inj [OF q this] Cons.IH [of t'] Cons show ?thesis by simp
  qed
qed

lemma repr_str_inj:
  assumes "repr_str U s @ r = repr_str U t @ r'"
  shows "s = t \<and> r = r'"
proof -
  from assms have q: "quote_of s = quote_of t"
    by (simp add: repr_str_def)
  with assms have
    "concat (map (repr_char U (quote_of s)) s) @ quote_of s # r
     = concat (map (repr_char U (quote_of s)) t) @ quote_of s # r'"
    by (simp add: repr_str_def)
  from body_inj [OF quote_of_cases this] show ?thesis .
qed

lemma delimited_nodig: "delimited r \<Longrightarrow> nodig r"
  by (cases r) (auto simp: delimited_def nodig_def isdelim_def isdig_def)

lemma dec_head: "\<exists>a rest. dec n = a # rest \<and> isdig a"
  using dec_nonempty [of n] dec_digits [of n] by (cases "dec n") auto

lemma repr_int_head: "\<exists>a rest. repr_int i = a # rest \<and> (a = 0x2D \<or> isdig a)"
  using dec_head [of "nat i"] by (auto simp: repr_int_def)

lemma repr_int_inj:
  assumes "repr_int i @ r = repr_int j @ r'" "nodig r" "nodig r'"
  shows "i = j \<and> r = r'"
proof -
  have nd: "\<not> isdig 0x2D" by (simp add: isdig_def)
  obtain a rest where a: "dec (nat i) = a # rest" "isdig a" using dec_head by blast
  obtain b rest' where b: "dec (nat j) = b # rest'" "isdig b" using dec_head by blast
  show ?thesis
  proof (cases "i < 0")
    case True
    show ?thesis
    proof (cases "j < 0")
      case jn: True
      with True assms(1) have "dec (nat (- i)) @ r = dec (nat (- j)) @ r'"
        by (simp add: repr_int_def)
      from dec_append_inj [OF this assms(2,3)] have "nat (- i) = nat (- j)" "r = r'" by simp_all
      with True jn show ?thesis by simp
    next
      case False
      with True assms(1) b nd show ?thesis by (auto simp: repr_int_def)
    qed
  next
    case False
    show ?thesis
    proof (cases "j < 0")
      case True
      with False assms(1) a nd show ?thesis by (auto simp: repr_int_def)
    next
      case jp: False
      with False assms(1) have "dec (nat i) @ r = dec (nat j) @ r'"
        by (simp add: repr_int_def)
      from dec_append_inj [OF this assms(2,3)] have "nat i = nat j" "r = r'" by simp_all
      with False jp show ?thesis by simp
    qed
  qed
qed

lemma repr_str_head: "\<exists>rest. repr_str U s = quote_of s # rest"
  by (simp add: repr_str_def)

lemma repr_head: "\<exists>a rest. repr U v = a # rest \<and> head_ok v a"
proof (cases v)
  case (PInt i)
  with repr_int_head [of i] show ?thesis by simp
next
  case (PStr s)
  with quote_of_cases [of s] show ?thesis by (simp add: repr_str_def)
qed (simp_all add: ascii_def)

lemma head_ok_not_delim: "head_ok v a \<Longrightarrow> \<not> isdelim a"
  by (cases v) (auto simp: isdelim_def isdig_def)

lemma join_comma_Cons:
  "join_comma (z # zs) = z @ (if zs = [] then [] else 0x2C # 0x20 # join_comma zs)"
  by (cases zs) simp_all

lemma join_comma_inj:
  assumes hd: "\<And>y. \<exists>a rest. f y = a # rest \<and> \<not> isdelim a"
    and c: "isdelim c" "c \<noteq> 0x2C"
  shows "(\<And>x y r r'. x \<in> set xs \<Longrightarrow> f x @ r = f y @ r' \<Longrightarrow> delimited r \<Longrightarrow> delimited r'
            \<Longrightarrow> x = y \<and> r = r')
         \<Longrightarrow> join_comma (map f xs) @ c # r = join_comma (map f ys) @ c # r'
         \<Longrightarrow> xs = ys \<and> r = r'"
proof (induction xs arbitrary: ys)
  case Nil
  show ?case
  proof (cases ys)
    case Nil
    with Nil.prems(2) show ?thesis by simp
  next
    case (Cons y ys')
    from hd [of y] obtain a rest where "f y = a # rest" "\<not> isdelim a" by blast
    with Nil.prems(2) Cons c show ?thesis by (simp add: join_comma_Cons)
  qed
next
  case (Cons x xs)
  show ?case
  proof (cases ys)
    case Nil
    from hd [of x] obtain a rest where "f x = a # rest" "\<not> isdelim a" by blast
    with Cons.prems(2) Nil c show ?thesis by (simp add: join_comma_Cons)
  next
    case ys: (Cons y ys')
    let ?T = "(if xs = [] then [] else 0x2C # 0x20 # join_comma (map f xs)) @ c # r"
    let ?T' = "(if ys' = [] then [] else 0x2C # 0x20 # join_comma (map f ys')) @ c # r'"
    have eq: "f x @ ?T = f y @ ?T'"
      using Cons.prems(2) ys by (simp add: join_comma_Cons)
    have d: "delimited ?T" "delimited ?T'"
      using c by (simp_all add: delimited_def isdelim_def)
    from Cons.prems(1) [OF _ eq d] have xy: "x = y" and T: "?T = ?T'" by simp_all
    have "xs = ys' \<and> r = r'"
    proof (cases "xs = []")
      case True
      with T c show ?thesis by (cases "ys' = []") simp_all
    next
      case False
      with T c have ne: "ys' \<noteq> []" by (cases "ys' = []") simp_all
      with T False have "join_comma (map f xs) @ c # r = join_comma (map f ys') @ c # r'"
        by simp
      moreover have "x' = y' \<and> ra = rb"
        if "x' \<in> set xs" "f x' @ ra = f y' @ rb" "delimited ra" "delimited rb"
        for x' y' ra rb
        using Cons.prems(1) [of x' ra y' rb] that by simp
      ultimately show ?thesis using Cons.IH [of ys'] by blast
    qed
    with xy ys show ?thesis by simp
  qed
qed

lemma repr_heads_agree:
  assumes "repr U v @ r = repr U v' @ r'"
  shows "\<exists>a. head_ok v a \<and> head_ok v' a"
proof -
  from repr_head [of U v] obtain a rest where a: "repr U v = a # rest" "head_ok v a" by blast
  from repr_head [of U v'] obtain b rest' where b: "repr U v' = b # rest'" "head_ok v' b" by blast
  from assms a b have "a = b" by simp
  with a b show ?thesis by blast
qed

lemma dict_item_head: "\<exists>a rest. repr_str U (fst kv) @ 0x3A # 0x20 # repr U (snd kv) = a # rest \<and> \<not> isdelim a"
  using quote_of_cases [of "fst kv"] by (auto simp: repr_str_def isdelim_def)

lemma repr_inj_ext:
  "repr U v @ r = repr U v' @ r' \<Longrightarrow> delimited r \<Longrightarrow> delimited r' \<Longrightarrow> v = v' \<and> r = r'"
proof (induction v arbitrary: v' r r')
  case PNone
  from repr_heads_agree [OF PNone.prems(1)] have "v' = PNone"
    by (cases v') (auto simp: isdig_def)
  with PNone.prems(1) show ?case by simp
next
  case (PBool b)
  from repr_heads_agree [OF PBool.prems(1)] obtain b' where "v' = PBool b'"
    by (cases v') (auto simp: isdig_def)
  with PBool.prems(1) show ?case by (cases b; cases b') (simp_all add: ascii_def)
next
  case (PInt i)
  from repr_heads_agree [OF PInt.prems(1)] obtain j where "v' = PInt j"
    by (cases v') (auto simp: isdig_def)
  with PInt.prems repr_int_inj [of i r j r'] show ?case
    by (simp add: delimited_nodig)
next
  case (PStr s)
  from repr_heads_agree [OF PStr.prems(1)] obtain t where "v' = PStr t"
    by (cases v') (auto simp: isdig_def)
  with PStr.prems(1) repr_str_inj [of U s r t r'] show ?case by simp
next
  case (PList vs)
  from repr_heads_agree [OF PList.prems(1)] obtain ws where w: "v' = PList ws"
    by (cases v') (auto simp: isdig_def)
  with PList.prems(1) have
    eq: "join_comma (map (repr U) vs) @ 0x5D # r = join_comma (map (repr U) ws) @ 0x5D # r'"
    by simp
  have hd: "\<exists>a rest. repr U y = a # rest \<and> \<not> isdelim a" for y
    using repr_head [of U y] head_ok_not_delim by blast
  have "vs = ws \<and> r = r'"
  proof (rule join_comma_inj [where f = "repr U" and c = "0x5D", OF hd _ _ _ eq])
    show "isdelim (0x5D::uchar)" by (simp add: isdelim_def)
    show "(0x5D::uchar) \<noteq> 0x2C" by simp
    show "x = y \<and> ra = rb"
      if "x \<in> set vs" "repr U x @ ra = repr U y @ rb" "delimited ra" "delimited rb"
      for x y ra rb
      using PList.IH [OF that] .
  qed
  with w show ?case by simp
next
  case (PDict kvs)
  let ?f = "\<lambda>kv. repr_str U (fst kv) @ [0x3A, 0x20] @ repr U (snd kv)"
  from repr_heads_agree [OF PDict.prems(1)] obtain kws where w: "v' = PDict kws"
    by (cases v') (auto simp: isdig_def)
  with PDict.prems(1) have
    eq: "join_comma (map ?f kvs) @ 0x7D # r = join_comma (map ?f kws) @ 0x7D # r'"
    by simp
  have hd: "\<exists>a rest. ?f y = a # rest \<and> \<not> isdelim a" for y
    using dict_item_head [of U y] by simp
  have "kvs = kws \<and> r = r'"
  proof (rule join_comma_inj [where f = ?f and c = "0x7D", OF hd _ _ _ eq])
    show "isdelim (0x7D::uchar)" by (simp add: isdelim_def)
    show "(0x7D::uchar) \<noteq> 0x2C" by simp
    show "x = y \<and> ra = rb"
      if "x \<in> set kvs" "?f x @ ra = ?f y @ rb" "delimited ra" "delimited rb"
      for x y ra rb
    proof -
      from that(2) have
        "repr_str U (fst x) @ (0x3A # 0x20 # repr U (snd x) @ ra)
         = repr_str U (fst y) @ (0x3A # 0x20 # repr U (snd y) @ rb)"
        by simp
      from repr_str_inj [OF this] have k: "fst x = fst y"
        and v: "repr U (snd x) @ ra = repr U (snd y) @ rb" by simp_all
      have "snd x \<in> Basic_BNFs.snds x" by (cases x) simp
      from PDict.IH [OF that(1) this v that(3,4)] k show ?thesis
        by (simp add: prod_eq_iff)
    qed
  qed
  with w show ?case by simp
qed

lemma repr_pair_inj:
  assumes "repr_pair U p @ r = repr_pair U p' @ r'"
  shows "p = p' \<and> r = r'"
proof -
  from assms have
    "repr U (fst p) @ (0x2C # 0x20 # repr U (snd p) @ 0x29 # r)
     = repr U (fst p') @ (0x2C # 0x20 # repr U (snd p') @ 0x29 # r')"
    by (simp add: repr_pair_def)
  from repr_inj_ext [OF this] have a: "fst p = fst p'"
    and "repr U (snd p) @ (0x29 # r) = repr U (snd p') @ (0x29 # r')"
    by (simp_all add: delimited_def isdelim_def)
  from repr_inj_ext [OF this(2)] a show ?thesis
    by (simp add: delimited_def isdelim_def prod_eq_iff)
qed

lemma str_keys_inj: "str_keys U ks = str_keys U ks' \<Longrightarrow> ks = ks'"
proof -
  assume "str_keys U ks = str_keys U ks'"
  then have eq: "join_comma (map (repr_pair U) ks) @ 0x5D # []
      = join_comma (map (repr_pair U) ks') @ 0x5D # []"
    by (simp add: str_keys_def)
  have hd: "\<exists>a rest. repr_pair U y = a # rest \<and> \<not> isdelim a" for y
    by (simp add: repr_pair_def isdelim_def)
  have "ks = ks' \<and> ([]::pystr) = []"
  proof (rule join_comma_inj [where f = "repr_pair U" and c = "0x5D", OF hd _ _ _ eq])
    show "isdelim (0x5D::uchar)" by (simp add: isdelim_def)
    show "(0x5D::uchar) \<noteq> 0x2C" by simp
    show "x = y \<and> ra = rb" if "repr_pair U x @ ra = repr_pair U y @ rb" for x y ra rb
      using repr_pair_inj [OF that] .
  qed
  then show ?thesis by simp
qed

section \<open>Properties of change detection\<close>

text \<open>
  C2: with an empty new snapshot \<open>has_new_slots\<close> returns false and leaves the monitor,
  and so the stored snapshot, as it was, whatever the stored snapshot holds.
\<close>

theorem has_new_slots_empty:
  "has_new_slots U st [] = (False, st)"
  by (simp add: has_new_slots_def)

text \<open>
  C1: when the new snapshot is not empty and its sequence of (date, start_time) pairs
  differs from the stored snapshot's sequence (a reordering of the same pairs is such a
  difference), \<open>has_new_slots\<close> returns true and the stored snapshot becomes the new one.
\<close>

theorem has_new_slots_changed:
  assumes "current_slots \<noteq> []"
    and "map slot_key current_slots \<noteq> map slot_key (last_slots st)"
  shows "has_new_slots U st current_slots = (True, st\<lparr>last_slots := current_slots\<rparr>)"
proof -
  from assms(2) have "str_keys U (map slot_key current_slots)
      \<noteq> str_keys U (map slot_key (last_slots st))"
    using str_keys_inj by blast
  with assms(1) show ?thesis by (simp add: has_new_slots_def)
qed

text \<open>
  C3: two new snapshots with the same sequence of (date, start_time) pairs get the same
  answer from \<open>has_new_slots\<close>, and when that sequence is the stored snapshot's the
  answer is "no change", whatever the prices and currencies are.
\<close>

theorem has_new_slots_key_only:
  assumes "map slot_key A = map slot_key B"
  shows "fst (has_new_slots U st A) = fst (has_new_slots U st B)
       \<and> (map slot_key A = map slot_key (last_slots st) \<longrightarrow> \<not> fst (has_new_slots U st A))"
proof -
  from assms have "A = [] \<longleftrightarrow> B = []" by (metis map_is_Nil_conv)
  with assms show ?thesis by (simp add: has_new_slots_def Let_def)
qed


theorem has_new_slots_changed_witness:
  "[sample_slot ''2024-03-08'' ''10:00'' 99, sample_slot ''2024-03-07'' ''10:00'' 99] \<noteq> []
   \<and> map slot_key [sample_slot ''2024-03-08'' ''10:00'' 99, sample_slot ''2024-03-07'' ''10:00'' 99]
       \<noteq> map slot_key [sample_slot ''2024-03-07'' ''10:00'' 99, sample_slot ''2024-03-08'' ''10:00'' 99]
   \<and> has_new_slots ascii_runtime
         \<lparr>subscribers = [],
          last_slots = [sample_slot ''2024-03-07'' ''10:00'' 99, sample_slot ''2024-03-08'' ''10:00'' 99]\<rparr>
         [sample_slot ''2024-03-08'' ''10:00'' 99, sample_slot ''2024-03-07'' ''10:00'' 99]
       = (True,
          \<lparr>subscribers = [],
           last_slots = [sample_slot ''2024-03-08'' ''10:00'' 99, sample_slot ''2024-03-07'' ''10:00'' 99]\<rparr>)"
  using has_new_slots_changed
    [where current_slots =
        "[sample_slot ''2024-03-08'' ''10:00'' 99, sample_slot ''2024-03-07'' ''10:00'' 99]"
      and st = "\<lparr>subscribers = [],
          last_slots = [sample_slot ''2024-03-07'' ''10:00'' 99, sample_slot ''2024-03-08'' ''10:00'' 99]\<rparr>"
      and U = ascii_runtime]
  by (simp add: sample_slot_def slot_key_def ascii_def)

theorem has_new_slots_key_only_witness:
  "map slot_key [sample_slot ''2024-03-07'' ''10:00'' 99]
     = map slot_key [sample_slot ''2024-03-07'' ''10:00'' 149]
   \<and> map slot_key [sample_slot ''2024-03-07'' ''10:00'' 99]
     = map slot_key (last_slots \<lparr>subscribers = [], last_slots = [sample_slot ''2024-03-07'' ''10:00'' 0]\<rparr>)
   \<and> fst (has_new_slots ascii_runtime
            \<lparr>subscribers = [], last_slots = [sample_slot ''2024-03-07'' ''10:00'' 0]\<rparr>
            [sample_slot ''2024-03-07'' ''10:00'' 99])
     = fst (has_new_slots ascii_runtime
            \<lparr>subscribers = [], last_slots = [sample_slot ''2024-03-07'' ''10:00'' 0]\<rparr>
            [sample_slot ''2024-03-07'' ''10:00'' 149])
   \<and> \<not> fst (has_new_slots ascii_runtime
            \<lparr>subscribers = [], last_slots = [sample_slot ''2024-03-07'' ''10:00'' 0]\<rparr>
            [sample_slot ''2024-03-07'' ''10:00'' 99])"
  using has_new_slots_key_only
    [where A = "[sample_slot ''2024-03-07'' ''10:00'' 99]"
      and B = "[sample_slot ''2024-03-07'' ''10:00'' 149]"
      and st = "\<lparr>subscribers = [], last_slots = [sample_slot ''2024-03-07'' ''10:00'' 0]\<rparr>"
      and U = ascii_runtime]
  by (auto simp add: sample_slot_def slot_key_def)

section \<open>Properties of notification\<close>

text \<open>
  The loop runs over a snapshot of the subscriber set, so every chat it meets is still in
  the set when the handler removes it, and \<open>set.remove\<close> never raises.
\<close>


lemma attempts_append: "attempts (xs @ ys) = attempts xs @ attempts ys"
  by (induction xs rule: attempts.induct) simp_all

lemma notify_loop_ok:
  "distinct us \<Longrightarrow> set us \<subseteq> set subs \<Longrightarrow>
   \<exists>subs' log'.
     notify_loop U deliver message us (subs, n, log)
       = Inr (subs', n + length (filter (\<lambda>u. deliver u message = None) us), log')
     \<and> subs' = filter (\<lambda>u. \<not> (u \<in> set us \<and> pruned U deliver message u)) subs
     \<and> attempts log' = attempts log @ us"
proof (induction us arbitrary: subs n log)
  case Nil
  then show ?case by simp
next
  case (Cons u us)
  from Cons.prems have d: "distinct us" and nu: "u \<notin> set us" and mem: "u \<in> set subs"
    and sub: "set us \<subseteq> set subs" by auto
  show ?case
  proof (cases "deliver u message")
    case None
    have f: "filter (\<lambda>x. \<not> (x \<in> set us \<and> pruned U deliver message x)) subs
        = filter (\<lambda>x. \<not> (x \<in> set (u # us) \<and> pruned U deliver message x)) subs"
      using None by (induction subs) (auto simp: pruned_def)
    from Cons.IH [OF d sub, of "n + 1" "log @ [Sent u]"] obtain log' where
      "notify_loop U deliver message us (subs, n + 1, log @ [Sent u])
        = Inr (filter (\<lambda>x. \<not> (x \<in> set us \<and> pruned U deliver message x)) subs,
               n + 1 + length (filter (\<lambda>u. deliver u message = None) us), log')"
      "attempts log' = attempts (log @ [Sent u]) @ us"
      by blast
    with None f show ?thesis
      by (simp add: attempts_append)
  next
    case (Some e)
    show ?thesis
    proof (cases "unreachable U e")
      case True
      from sub nu have sub': "set us \<subseteq> set (removeAll u subs)" by auto
      have f: "filter (\<lambda>x. \<not> (x \<in> set us \<and> pruned U deliver message x)) (removeAll u subs)
          = filter (\<lambda>x. \<not> (x \<in> set (u # us) \<and> pruned U deliver message x)) subs"
        using Some True by (induction subs) (auto simp: pruned_def)
      from Cons.IH [OF d sub', of n "log @ [Failed u e, Removed u]"] obtain log' where
        "notify_loop U deliver message us (removeAll u subs, n, log @ [Failed u e, Removed u])
          = Inr (filter (\<lambda>x. \<not> (x \<in> set us \<and> pruned U deliver message x)) (removeAll u subs),
                 n + length (filter (\<lambda>u. deliver u message = None) us), log')"
        "attempts log' = attempts (log @ [Failed u e, Removed u]) @ us"
        by blast
      with Some True mem f show ?thesis
        by (simp add: attempts_append set_remove_def)
    next
      case False
      have f: "filter (\<lambda>x. \<not> (x \<in> set us \<and> pruned U deliver message x)) subs
          = filter (\<lambda>x. \<not> (x \<in> set (u # us) \<and> pruned U deliver message x)) subs"
        using Some False by (induction subs) (auto simp: pruned_def)
      from Cons.IH [OF d sub, of n "log @ [Failed u e]"] obtain log' where
        "notify_loop U deliver message us (subs, n, log @ [Failed u e])
          = Inr (filter (\<lambda>x. \<not> (x \<in> set us \<and> pruned U deliver message x)) subs,
                 n + length (filter (\<lambda>u. deliver u message = None) us), log')"
        "attempts log' = attempts (log @ [Failed u e]) @ us"
        by blast
      with Some False f show ?thesis
        by (simp add: attempts_append)
    qed
  qed
qed

lemma send_notifications_ok:
  assumes "distinct (subscribers st)"
  shows "\<exists>r. send_notifications U deliver now st slots = Inr r
     \<and> returned r = PNone
     \<and> subscribers (monitor_after r)
         = filter (\<lambda>u. \<not> pruned U deliver (format_slots_message U now slots) u) (subscribers st)
     \<and> last_slots (monitor_after r) = last_slots st
     \<and> attempts (logged r) = subscribers st
     \<and> (subscribers st = [] \<or>
         last (logged r) = Summary
           (length (filter (\<lambda>u. deliver u (format_slots_message U now slots) = None) (subscribers st)))
           (length (subscribers (monitor_after r))))"
proof (cases "subscribers st = []")
  case True
  then show ?thesis by (simp add: send_notifications_def)
next
  case False
  from notify_loop_ok [OF assms subset_refl, of U deliver "format_slots_message U now slots" 0 "[]"]
  obtain subs' log' where
    l: "notify_loop U deliver (format_slots_message U now slots) (subscribers st) (subscribers st, 0, [])
       = Inr (subs', length (filter (\<lambda>u. deliver u (format_slots_message U now slots) = None) (subscribers st)), log')"
    and s: "subs' = filter (\<lambda>u. \<not> (u \<in> set (subscribers st) \<and> pruned U deliver (format_slots_message U now slots) u)) (subscribers st)"
    and a: "attempts log' = subscribers st"
    by auto
  have "filter (\<lambda>u. \<not> (u \<in> set (subscribers st) \<and> pruned U deliver (format_slots_message U now slots) u)) (subscribers st)
      = filter (\<lambda>u. \<not> pruned U deliver (format_slots_message U now slots) u) (subscribers st)"
    by (rule filter_cong) auto
  with False l s a show ?thesis
    by (simp add: send_notifications_def Let_def attempts_append)
qed

lemma sample_unreachable:
  "unreachable ascii_runtime (ascii ''Forbidden: Bot was blocked by the user'')"
  "\<not> unreachable ascii_runtime (ascii ''Timed out'')"
  by (simp_all add: unreachable_def ascii_runtime_def ascii_def)

text \<open>
  C4: in a batch over a subscriber set, a subscriber is no longer in the set afterwards
  exactly when the delivery to that subscriber raised an exception whose text matches
  the unreachable test (bot was blocked, chat not found); a failure with any other text
  and a successful delivery both leave the subscriber in the set.
\<close>

theorem send_notifications_prunes:
  assumes "distinct (subscribers st)"
  shows "\<exists>r. send_notifications U deliver now st slots = Inr r
     \<and> (\<forall>u. u \<in> set (subscribers (monitor_after r)) \<longleftrightarrow>
              u \<in> set (subscribers st)
              \<and> \<not> (\<exists>e. deliver u (format_slots_message U now slots) = Some e \<and> unreachable U e))"
proof -
  from send_notifications_ok [OF assms, of U deliver now slots] obtain r where
    r: "send_notifications U deliver now st slots = Inr r"
    and s: "subscribers (monitor_after r)
         = filter (\<lambda>u. \<not> pruned U deliver (format_slots_message U now slots) u) (subscribers st)"
    by blast
  have "pruned U deliver m u \<longleftrightarrow> (\<exists>e. deliver u m = Some e \<and> unreachable U e)" for m u
    by (cases "deliver u m") (simp_all add: pruned_def)
  with r s show ?thesis by simp
qed

theorem send_notifications_prunes_witness:
  "distinct (subscribers \<lparr>subscribers = [1, 2, 3], last_slots = []\<rparr>)
   \<and> send_notifications ascii_runtime sample_deliver (12, 0, 0)
        \<lparr>subscribers = [1, 2, 3], last_slots = []\<rparr> []
      = Inr \<lparr>monitor_after = \<lparr>subscribers = [1, 3], last_slots = []\<rparr>, returned = PNone,
             logged = [Sent 1, Failed 2 (ascii ''Forbidden: Bot was blocked by the user''),
                       Removed 2, Failed 3 (ascii ''Timed out''), Summary 1 2]\<rparr>
   \<and> (\<exists>r. send_notifications ascii_runtime sample_deliver (12, 0, 0)
             \<lparr>subscribers = [1, 2, 3], last_slots = []\<rparr> [] = Inr r
        \<and> (\<forall>u. u \<in> set (subscribers (monitor_after r)) \<longleftrightarrow>
              u \<in> set (subscribers \<lparr>subscribers = [1, 2, 3], last_slots = []\<rparr>)
              \<and> \<not> (\<exists>e. sample_deliver u (format_slots_message ascii_runtime (12, 0, 0) []) = Some e
                       \<and> unreachable ascii_runtime e)))"
proof -
  have "send_notifications ascii_runtime sample_deliver (12, 0, 0)
        \<lparr>subscribers = [1, 2, 3], last_slots = []\<rparr> []
      = Inr \<lparr>monitor_after = \<lparr>subscribers = [1, 3], last_slots = []\<rparr>, returned = PNone,
             logged = [Sent 1, Failed 2 (ascii ''Forbidden: Bot was blocked by the user''),
                       Removed 2, Failed 3 (ascii ''Timed out''), Summary 1 2]\<rparr>"
    by (simp add: send_notifications_def sample_deliver_def sample_unreachable set_remove_def)
  moreover have "distinct (subscribers \<lparr>subscribers = [1, 2, 3::int], last_slots = []\<rparr>)"
    by simp
  ultimately show ?thesis
    using send_notifications_prunes
      [where st = "\<lparr>subscribers = [1, 2, 3], last_slots = []\<rparr>" and U = ascii_runtime
        and deliver = sample_deliver and now = "(12, 0, 0)" and slots = "[]"]
    by blast
qed

text \<open>
  C5 as stated fails on its last part: the call returns \<open>None\<close>; the count of successful
  deliveries goes to the log.
\<close>

theorem send_notifications_returns_count_counterexample:
  "send_notifications ascii_runtime (\<lambda>u message. None) (12, 0, 0)
     \<lparr>subscribers = [1], last_slots = []\<rparr> []
   = Inr \<lparr>monitor_after = \<lparr>subscribers = [1], last_slots = []\<rparr>, returned = PNone,
          logged = [Sent 1, Summary 1 1]\<rparr>
   \<and> PNone \<noteq> PInt 1"
  by (simp add: send_notifications_def)

text \<open>
  C5, amended: a batch never raises, attempts a delivery to every subscriber that was in
  the set at its start, in order and whatever the earlier deliveries did, and returns
  \<open>None\<close>; when the set is not empty its last log line carries the count of successful
  deliveries and the size of the set afterwards, and when the set is empty it attempts
  nothing, leaves the monitor as it was and logs only that there are no subscribers.
\<close>

theorem send_notifications_batch:
  assumes "distinct (subscribers st)"
  shows "\<exists>r. send_notifications U deliver now st slots = Inr r
     \<and> attempts (logged r) = subscribers st
     \<and> returned r = PNone
     \<and> (subscribers st = [] \<or>
         last (logged r) = Summary
           (length (filter (\<lambda>u. deliver u (format_slots_message U now slots) = None) (subscribers st)))
           (length (subscribers (monitor_after r))))
     \<and> (subscribers st = [] \<longrightarrow> logged r = [NoSubscribers] \<and> monitor_after r = st)"
proof (cases "subscribers st = []")
  case True
  then show ?thesis by (simp add: send_notifications_def)
next
  case False
  with send_notifications_ok [OF assms, of U deliver now slots] show ?thesis by blast
qed

theorem send_notifications_batch_witness:
  "distinct (subscribers \<lparr>subscribers = [1, 2, 3], last_slots = []\<rparr>)
   \<and> send_notifications ascii_runtime sample_deliver (12, 0, 0)
        \<lparr>subscribers = [1, 2, 3], last_slots = []\<rparr> []
      = Inr \<lparr>monitor_after = \<lparr>subscribers = [1, 3], last_slots = []\<rparr>, returned = PNone,
             logged = [Sent 1, Failed 2 (ascii ''Forbidden: Bot was blocked by the user''),
                       Removed 2, Failed 3 (ascii ''Timed out''), Summary 1 2]\<rparr>
   \<and> (\<exists>r. send_notifications ascii_runtime sample_deliver (12, 0, 0)
             \<lparr>subscribers = [1, 2, 3], last_slots = []\<rparr> [] = Inr r
        \<and> attempts (logged r) = subscribers \<lparr>subscribers = [1, 2, 3], last_slots = []\<rparr>
        \<and> returned r = PNone
        \<and> (subscribers \<lparr>subscribers = [1, 2, 3], last_slots = []\<rparr> = [] \<or>
            last (logged r) = Summary
              (length (filter (\<lambda>u. sample_deliver u (format_slots_message ascii_runtime (12, 0, 0) []) = None)
                         (subscribers \<lparr>subscribers = [1, 2, 3], last_slots = []\<rparr>)))
              (length (subscribers (monitor_after r)))))
   \<and> distinct (subscribers \<lparr>subscribers = [], last_slots = []\<rparr>)
   \<and> subscribers \<lparr>subscribers = [], last_slots = []\<rparr> = []
   \<and> (\<exists>r. send_notifications ascii_runtime sample_deliver (12, 0, 0)
             \<lparr>subscribers = [], last_slots = []\<rparr> [] = Inr r
        \<and> attempts (logged r) = []
        \<and> returned r = PNone
        \<and> logged r = [NoSubscribers]
        \<and> monitor_after r = \<lparr>subscribers = [], last_slots = []\<rparr>)"
proof -
  have "send_notifications ascii_runtime sample_deliver (12, 0, 0)
        \<lparr>subscribers = [1, 2, 3], last_slots = []\<rparr> []
      = Inr \<lparr>monitor_after = \<lparr>subscribers = [1, 3], last_slots = []\<rparr>, returned = PNone,
             logged = [Sent 1, Failed 2 (ascii ''Forbidden: Bot was blocked by the user''),
                       Removed 2, Failed 3 (ascii ''Timed out''), Summary 1 2]\<rparr>"
    by (simp add: send_notifications_def sample_deliver_def sample_unreachable set_remove_def)
  moreover have d: "distinct (subscribers \<lparr>subscribers = [1, 2, 3::int], last_slots = []\<rparr>)"
    by simp
  moreover have e: "distinct (subscribers \<lparr>subscribers = ([]::int list), last_slots = []\<rparr>)"
    "subscribers \<lparr>subscribers = ([]::int list), last_slots = []\<rparr> = []"
    by simp_all
  moreover from send_notifications_batch
      [OF d, where U = ascii_runtime and deliver = sample_deliver and now = "(12, 0, 0)"
        and slots = "[]"]
  have "\<exists>r. send_notifications ascii_runtime sample_deliver (12, 0, 0)
             \<lparr>subscribers = [1, 2, 3], last_slots = []\<rparr> [] = Inr r
        \<and> attempts (logged r) = subscribers \<lparr>subscribers = [1, 2, 3], last_slots = []\<rparr>
        \<and> returned r = PNone
        \<and> (subscribers \<lparr>subscribers = [1, 2, 3], last_slots = []\<rparr> = [] \<or>
            last (logged r) = Summary
              (length (filter (\<lambda>u. sample_deliver u (format_slots_message ascii_runtime (12, 0, 0) []) = None)
                         (subscribers \<lparr>subscribers = [1, 2, 3], last_slots = []\<rparr>)))
              (length (subscribers (monitor_after r))))"
    by blast
  moreover from send_notifications_batch
      [OF e(1), where U = ascii_runtime and deliver = sample_deliver and now = "(12, 0, 0)"
        and slots = "[]"] e(2)
  have "\<exists>r. send_notifications ascii_runtime sample_deliver (12, 0, 0)
             \<lparr>subscribers = [], last_slots = []\<rparr> [] = Inr r
        \<and> attempts (logged r) = []
        \<and> returned r = PNone
        \<and> logged r = [NoSubscribers]
        \<and> monitor_after r = \<lparr>subscribers = [], last_slots = []\<rparr>"
    by auto
  ultimately show ?thesis by blast
qed

section \<open>Properties of formatting\<close>

text \<open>
  The loop appends one entry per slot whose date parses, so the message is the header,
  the entries and what follows the loop; and \<open>strptime\<close> reads a date written
  \<open>YYYY-MM-DD\<close> back as its year, month and day.
\<close>


lemma format_step_eq:
  "format_step U message i s =
     message @ (case strptime U (date s) of
                  Inl e \<Rightarrow> []
                | Inr dt \<Rightarrow> entry_text U i (strftime_dmy U dt) s)"
  by (simp add: format_step_def entry_text_def price_line_def Let_def split: sum.splits)

lemma format_entries_eq:
  "format_entries U message i slots = message @ concat (rendered_entries U i slots)"
proof (induction slots arbitrary: message i)
  case Nil
  then show ?case by simp
next
  case (Cons s slots)
  then show ?case
    by (cases "strptime U (date s)") (simp_all add: format_step_eq)
qed

lemma length_rendered_entries: "length (rendered_entries U i slots) \<le> length slots"
proof (induction slots arbitrary: i)
  case Nil
  then show ?case by simp
next
  case (Cons s slots)
  from Cons [of "Suc i"] show ?case
    by (cases "strptime U (date s)") simp_all
qed

lemma length_rendered_all:
  "list_all (parses U) slots \<Longrightarrow> length (rendered_entries U i slots) = length slots"
  by (induction slots arbitrary: i) (auto simp: parses_def split: sum.splits)

lemma rendered_entries_append:
  "rendered_entries U i (xs @ ys) = rendered_entries U i xs @ rendered_entries U (i + length xs) ys"
  by (induction xs arbitrary: i) (auto split: sum.splits)

lemma digit_char_numerals:
  "digit_char 0 = 0x30" "digit_char 1 = 0x31" "digit_char 2 = 0x32" "digit_char 3 = 0x33"
  "digit_char 4 = 0x34" "digit_char 5 = 0x35" "digit_char 6 = 0x36" "digit_char 7 = 0x37"
  "digit_char 8 = 0x38" "digit_char 9 = 0x39"
  by (simp_all add: digit_char_def)

lemma ascii_digits_value:
  assumes "ascii_digits U" "k < 10"
  shows "decimal_value U (digit_char k) = Some k"
proof -
  from assms(2) have "k \<in> {0, 1, 2, 3, 4, 5, 6, 7, 8, 9}" by auto
  with assms(1) show ?thesis by (auto simp: ascii_digits_def)
qed

lemma dec_1: "n < 10 \<Longrightarrow> dec n = [digit_char n]"
  by (simp add: dec.simps [of n])

lemma dec_2: "10 \<le> n \<Longrightarrow> n < 100 \<Longrightarrow> dec n = [digit_char (n div 10), digit_char (n mod 10)]"
  by (simp add: dec.simps [of n] dec_1)

lemma dec_3:
  assumes "100 \<le> n" "n < 1000"
  shows "dec n = [digit_char (n div 100), digit_char (n div 10 mod 10), digit_char (n mod 10)]"
proof -
  from assms have r: "10 \<le> n div 10" "n div 10 < 100" by simp_all
  have "n div 10 div 10 = n div 100" by (simp add: div_mult2_eq [symmetric])
  with dec_2 [OF r] have "dec (n div 10) = [digit_char (n div 100), digit_char (n div 10 mod 10)]"
    by simp
  moreover from assms have "\<not> n < 10" by simp
  ultimately show ?thesis by (simp add: dec.simps [of n])
qed

lemma dec_4:
  assumes "1000 \<le> n" "n < 10000"
  shows "dec n = [digit_char (n div 1000), digit_char (n div 100 mod 10),
                  digit_char (n div 10 mod 10), digit_char (n mod 10)]"
proof -
  from assms have r: "100 \<le> n div 10" "n div 10 < 1000" by simp_all
  have "n div 10 div 100 = n div 1000" "n div 10 div 10 = n div 100"
    by (simp_all add: div_mult2_eq [symmetric])
  with dec_3 [OF r] have
    "dec (n div 10) = [digit_char (n div 1000), digit_char (n div 100 mod 10),
                       digit_char (n div 10 mod 10)]"
    by simp
  moreover from assms have "\<not> n < 10" by simp
  ultimately show ?thesis by (simp add: dec.simps [of n])
qed

lemma pad2_digits: "n < 100 \<Longrightarrow> pad2 n = [digit_char (n div 10), digit_char (n mod 10)]"
  by (cases "n < 10") (simp_all add: pad2_def dec_1 dec_2 digit_char_numerals)

lemma pad4_digits:
  assumes "n < 10000"
  shows "pad4 n = [digit_char (n div 1000), digit_char (n div 100 mod 10),
                   digit_char (n div 10 mod 10), digit_char (n mod 10)]"
proof -
  consider "n < 10" | "10 \<le> n" "n < 100" | "100 \<le> n" "n < 1000" | "1000 \<le> n"
    by linarith
  then show ?thesis
  proof cases
    case 1
    then show ?thesis by (simp add: pad4_def dec_1 digit_char_numerals numeral_3_eq_3)
  next
    case 2
    then show ?thesis by (simp add: pad4_def dec_2 digit_char_numerals numeral_2_eq_2)
  next
    case 3
    then show ?thesis by (simp add: pad4_def dec_3 digit_char_numerals)
  next
    case 4
    with assms show ?thesis by (simp add: pad4_def dec_4)
  qed
qed

lemma pad4_dec: "1000 \<le> n \<Longrightarrow> n < 10000 \<Longrightarrow> pad4 n = dec n"
  by (simp add: pad4_def dec_4)

lemma match_year_pad4:
  assumes "ascii_digits U" "y < 10000"
  shows "match_year U (pad4 y @ rest) = Some (y, rest)"
proof -
  have v: "decimal_value U (digit_char (y div 1000)) = Some (y div 1000)"
    "decimal_value U (digit_char (y div 100 mod 10)) = Some (y div 100 mod 10)"
    "decimal_value U (digit_char (y div 10 mod 10)) = Some (y div 10 mod 10)"
    "decimal_value U (digit_char (y mod 10)) = Some (y mod 10)"
    using assms by (simp_all add: ascii_digits_value)
  define q1 where "q1 = y div 10"
  define r0 where "r0 = y mod 10"
  define q2 where "q2 = q1 div 10"
  define r1 where "r1 = q1 mod 10"
  define q3 where "q3 = q2 div 10"
  define r2 where "r2 = q2 mod 10"
  have "y = 10 * q1 + r0" "q1 = 10 * q2 + r1" "q2 = 10 * q3 + r2"
    by (simp_all add: q1_def r0_def q2_def r1_def q3_def r2_def)
  then have "1000 * q3 + 100 * r2 + 10 * r1 + r0 = y" by linarith
  moreover have "q2 = y div 100" "q3 = y div 1000"
    by (simp_all add: q1_def r0_def q2_def r1_def q3_def r2_def div_mult2_eq [symmetric])
  ultimately have
    "1000 * (y div 1000) + 100 * (y div 100 mod 10) + 10 * (y div 10 mod 10) + y mod 10 = y"
    by (simp add: q1_def r0_def q2_def r1_def q3_def r2_def)
  with v show ?thesis
    by (simp add: match_year_def pad4_digits [OF assms(2)])
qed

lemma upto_12: "1 \<le> m \<Longrightarrow> m \<le> 12 \<Longrightarrow> m \<in> {1, 2, 3, 4, 5, 6, 7, 8, 9, 10, 11, 12::nat}"
  by simp arith

lemma match_month_pad2:
  assumes "1 \<le> m" "m \<le> 12"
  shows "match_month (pad2 m @ 0x2D # rest) = Some (m, 0x2D # rest)"
proof -
  from assms have "pad2 m = [digit_char (m div 10), digit_char (m mod 10)]"
    by (simp add: pad2_digits)
  with upto_12 [OF assms] show ?thesis
    by (auto simp: digit_char_def digit_1_9_def ascii_value_def)
qed

lemma match_day_digits:
  assumes v: "decimal_value U (digit_char b) = Some b"
    and a: "a \<in> {0, 1, 2, 3::nat}" and b: "b \<in> {0, 1, 2, 3, 4, 5, 6, 7, 8, 9::nat}"
    and r: "1 \<le> 10 * a + b" "10 * a + b \<le> 31"
  shows "match_day U [digit_char a, digit_char b] = Some (10 * a + b, [])"
proof -
  consider "a = 0" | "a = 1" | "a = 2" | "a = 3" using a by auto
  then show ?thesis
  proof cases
    case 1
    with b r show ?thesis
      by (auto simp: digit_char_def digit_1_9_def ascii_value_def)
  next
    case 2
    have "match_day U [0x31, digit_char b] = Some (10 + b, [])"
      using v by (simp add: ascii_value_def)
    moreover have "digit_char a = 0x31" using 2 by (simp add: digit_char_def)
    ultimately show ?thesis using 2 by simp
  next
    case 3
    have "match_day U [0x32, digit_char b] = Some (20 + b, [])"
      using v by (simp add: ascii_value_def)
    moreover have "digit_char a = 0x32" using 3 by (simp add: digit_char_def)
    ultimately show ?thesis using 3 by simp
  next
    case 4
    with r have "b = 0 \<or> b = 1" by auto
    with 4 show ?thesis
      by (auto simp: digit_char_def ascii_value_def)
  qed
qed

lemma match_day_pad2:
  assumes "ascii_digits U" "1 \<le> d" "d \<le> 31"
  shows "match_day U (pad2 d) = Some (d, [])"
proof -
  from assms(3) have p: "pad2 d = [digit_char (d div 10), digit_char (d mod 10)]"
    by (simp add: pad2_digits)
  have v: "decimal_value U (digit_char (d mod 10)) = Some (d mod 10)"
    using assms(1) by (simp add: ascii_digits_value)
  from assms(3) have "d div 10 < 4" by simp
  then have a: "d div 10 \<in> {0, 1, 2, 3}" by auto
  have "d mod 10 < 10" by simp
  then have b: "d mod 10 \<in> {0, 1, 2, 3, 4, 5, 6, 7, 8, 9}" by (rule below_ten)
  have "10 * (d div 10) + d mod 10 = d" by simp
  with match_day_digits [OF v a b] assms(2,3) p show ?thesis by simp
qed

lemma days_in_month_le: "days_in_month y m \<le> 31"
  by (simp add: days_in_month_def)

lemma strptime_iso_date:
  assumes "ascii_digits U" "1 \<le> y" "y \<le> 9999" "1 \<le> m" "m \<le> 12" "1 \<le> d"
    "d \<le> days_in_month y m"
  shows "strptime U (PStr (iso_date y m d)) = Inr (y, m, d)"
proof -
  from assms(3) have y: "y < 10000" by simp
  from assms(7) days_in_month_le [of y m] have d: "d \<le> 31" by linarith
  have 1: "match_year U (pad4 y @ (0x2D # pad2 m @ 0x2D # pad2 d))
      = Some (y, 0x2D # pad2 m @ 0x2D # pad2 d)"
    by (rule match_year_pad4 [OF assms(1) y])
  have 2: "match_month (pad2 m @ 0x2D # pad2 d) = Some (m, 0x2D # pad2 d)"
    by (rule match_month_pad2 [OF assms(4,5)])
  have 3: "match_day U (pad2 d) = Some (d, [])"
    by (rule match_day_pad2 [OF assms(1,6) d])
  from 1 2 3 assms(2,6,7) show ?thesis
    by (simp add: strptime_def iso_date_def expect_hyphen_def)
qed

lemma strftime_dmy_padded:
  assumes "1000 \<le> y \<or> year_zero_padded U" "y \<le> 9999"
  shows "strftime_dmy U (y, m, d) = pad2 d @ [0x2E] @ pad2 m @ [0x2E] @ pad4 y"
  using assms by (auto simp: strftime_dmy_def pad4_dec)

lemma ascii_runtime_digits: "ascii_digits ascii_runtime"
  by (simp add: ascii_digits_def ascii_runtime_def digit_char_def)

lemma sample_parses: "strptime ascii_runtime (date (sample_slot ''2024-03-07'' t p)) = Inr (2024, 3, 7)"
proof -
  have "date (sample_slot ''2024-03-07'' t p) = PStr (iso_date 2024 3 7)"
    by (simp add: sample_slot_def iso_date_def pad4_def pad2_def dec.simps digit_char_def ascii_def)
  moreover have "strptime ascii_runtime (PStr (iso_date 2024 3 7)) = Inr (2024, 3, 7)"
    by (rule strptime_iso_date [OF ascii_runtime_digits])
      (simp_all add: days_in_month_def)
  ultimately show ?thesis by simp
qed

lemma sample_unparsed: "strptime ascii_runtime (date (sample_slot [] t p)) = Inl ValueError"
  by (simp add: sample_slot_def strptime_def match_year_def ascii_def)

lemma format_slots_message_long:
  assumes "15 < length slots"
  shows "format_slots_message U now slots
           = header_text @ concat (rendered_entries U 1 (take 15 slots))
               @ more_text (length slots - 15) @ footer_text now"
proof -
  from assms have "slots \<noteq> []" by auto
  with assms show ?thesis
    by (simp add: format_slots_message_def format_entries_eq Let_def)
qed

lemma rendered_entries_replicate:
  "parses U s \<Longrightarrow> length (rendered_entries U i (replicate n s)) = n"
  using length_rendered_all [of U "replicate n s" i] by (simp add: list_all_iff)

text \<open>
  C6 as stated fails: of twenty slots the first has no parsable date, and the message
  holds fourteen entries before the line for five more.
\<close>

theorem format_slots_message_twenty_counterexample:
  "length twenty_slots = 20
   \<and> format_slots_message ascii_runtime (12, 0, 0) twenty_slots
       = header_text @ concat (rendered_entries ascii_runtime 1 (take 15 twenty_slots))
           @ more_text 5 @ footer_text (12, 0, 0)
   \<and> length (rendered_entries ascii_runtime 1 (take 15 twenty_slots)) = 14"
proof -
  have l: "length twenty_slots = 20" by (simp add: twenty_slots_def)
  have t: "take 15 twenty_slots
      = sample_slot [] ''10:00'' 99 # replicate 14 (sample_slot ''2024-03-07'' ''10:00'' 99)"
    by (simp add: twenty_slots_def take_Cons')
  have p: "parses ascii_runtime (sample_slot ''2024-03-07'' ''10:00'' 99)"
    by (simp add: parses_def sample_parses)
  have "length (rendered_entries ascii_runtime 1 (take 15 twenty_slots)) = 14"
    by (simp add: t sample_unparsed rendered_entries_replicate [OF p])
  moreover from format_slots_message_long [of twenty_slots ascii_runtime "(12, 0, 0)"] l
  have "format_slots_message ascii_runtime (12, 0, 0) twenty_slots
       = header_text @ concat (rendered_entries ascii_runtime 1 (take 15 twenty_slots))
           @ more_text 5 @ footer_text (12, 0, 0)"
    by simp
  ultimately show ?thesis using l by simp
qed

text \<open>
  C6, amended: for a snapshot of more than 15 slots the message is the header, the
  entries rendered from the first 15 slots, the line saying how many slots beyond 15
  there are, and the footer; at most 15 entries are rendered, and exactly 15 when the
  dates of the first 15 slots all parse.
\<close>

theorem format_slots_message_limit:
  assumes "15 < length slots"
  shows "format_slots_message U now slots
           = header_text @ concat (rendered_entries U 1 (take 15 slots))
               @ more_text (length slots - 15) @ footer_text now
       \<and> length (rendered_entries U 1 (take 15 slots)) \<le> 15
       \<and> (list_all (parses U) (take 15 slots)
            \<longrightarrow> length (rendered_entries U 1 (take 15 slots)) = 15)"
proof -
  have "length (rendered_entries U 1 (take 15 slots)) \<le> length (take 15 slots)"
    by (rule length_rendered_entries)
  with assms have le: "length (rendered_entries U 1 (take 15 slots)) \<le> 15" by simp
  have "length (rendered_entries U 1 (take 15 slots)) = 15"
    if "list_all (parses U) (take 15 slots)"
    using length_rendered_all [OF that, of 1] assms by simp
  with le format_slots_message_long [OF assms] show ?thesis by simp
qed

theorem format_slots_message_limit_witness:
  "15 < length (replicate 20 (sample_slot ''2024-03-07'' ''10:00'' 99))
   \<and> list_all (parses ascii_runtime) (take 15 (replicate 20 (sample_slot ''2024-03-07'' ''10:00'' 99)))
   \<and> format_slots_message ascii_runtime (12, 0, 0)
         (replicate 20 (sample_slot ''2024-03-07'' ''10:00'' 99))
       = header_text
           @ concat (rendered_entries ascii_runtime 1
                       (take 15 (replicate 20 (sample_slot ''2024-03-07'' ''10:00'' 99))))
           @ more_text 5 @ footer_text (12, 0, 0)
   \<and> length (rendered_entries ascii_runtime 1
                (take 15 (replicate 20 (sample_slot ''2024-03-07'' ''10:00'' 99)))) = 15"
proof -
  have p: "parses ascii_runtime (sample_slot ''2024-03-07'' ''10:00'' 99)"
    by (simp add: parses_def sample_parses)
  then have a: "list_all (parses ascii_runtime)
      (take 15 (replicate 20 (sample_slot ''2024-03-07'' ''10:00'' 99)))"
    by (simp add: list_all_iff)
  have l: "15 < length (replicate 20 (sample_slot ''2024-03-07'' ''10:00'' 99))" by simp
  from format_slots_message_limit [OF l, of ascii_runtime "(12, 0, 0)"] a l show ?thesis
    by simp
qed

text \<open>
  C7 as stated fails on the price: a slot whose price is 0 has a price, and its entry has
  no price line.
\<close>

theorem format_slots_message_zero_price_counterexample:
  "price (sample_slot ''2024-03-07'' ''10:00'' 0) = PInt 0
   \<and> format_slots_message ascii_runtime (12, 0, 0) [sample_slot ''2024-03-07'' ''10:00'' 0]
       = header_text @ ascii ''<b>1. '' @ [0x1F4C5] @ ascii '' 07.03.2024</b>'' @ [0x0A]
           @ ascii ''   '' @ [0x1F552] @ ascii '' 10:00 - 23:59'' @ [0x0A]
           @ [0x0A] @ footer_text (12, 0, 0)"
proof -
  have p: "strptime ascii_runtime (date (sample_slot ''2024-03-07'' ''10:00'' 0))
      = Inr (2024, 3, 7)"
    by (rule sample_parses)
  have f: "strftime_dmy ascii_runtime (2024, 3, 7) = ascii ''07.03.2024''"
    by (simp add: strftime_dmy_def ascii_runtime_def pad2_def dec.simps digit_char_def ascii_def)
  have t: "entry_text ascii_runtime 1 (ascii ''07.03.2024'') (sample_slot ''2024-03-07'' ''10:00'' 0)
      = ascii ''<b>1. '' @ [0x1F4C5] @ ascii '' 07.03.2024</b>'' @ [0x0A]
           @ ascii ''   '' @ [0x1F552] @ ascii '' 10:00 - 23:59'' @ [0x0A] @ [0x0A]"
    by (simp add: entry_text_def sample_slot_def dec.simps digit_char_def ascii_def)
  have "format_step ascii_runtime header_text 1 (sample_slot ''2024-03-07'' ''10:00'' 0)
      = header_text
          @ entry_text ascii_runtime 1 (ascii ''07.03.2024'') (sample_slot ''2024-03-07'' ''10:00'' 0)"
    by (simp add: format_step_eq p f)
  with t show ?thesis
    by (simp add: format_slots_message_def sample_slot_def)
qed

text \<open>
  C7, amended: for a slot whose date is a day of the calendar written \<open>YYYY-MM-DD\<close>
  (year 1000 or later, or any year from 1 where \<open>%Y\<close> is padded), the loop body appends
  the entry with the date as \<open>DD.MM.YYYY\<close>, the line with start and end time, and the
  price line exactly when the price is truthy, that is present and neither zero nor empty.
\<close>

theorem format_step_entry:
  assumes "ascii_digits U"
    and "1 \<le> y" "y \<le> 9999" "1 \<le> m" "m \<le> 12" "1 \<le> d" "d \<le> days_in_month y m"
    and "1000 \<le> y \<or> year_zero_padded U"
    and "date s = PStr (iso_date y m d)"
  shows "format_step U message i s
           = message @ ascii ''<b>'' @ dec i @ ascii ''. '' @ [0x1F4C5] @ ascii '' ''
               @ pad2 d @ [0x2E] @ pad2 m @ [0x2E] @ pad4 y @ ascii ''</b>'' @ [0x0A]
               @ ascii ''   '' @ [0x1F552] @ ascii '' '' @ py_str U (start_time s)
               @ ascii '' - '' @ py_str U (end_time s) @ [0x0A]
               @ (if truthy (price s) then price_line U s else [])
               @ [0x0A]"
proof -
  have "strptime U (date s) = Inr (y, m, d)"
    using strptime_iso_date [OF assms(1-7)] assms(9) by simp
  moreover have "strftime_dmy U (y, m, d) = pad2 d @ [0x2E] @ pad2 m @ [0x2E] @ pad4 y"
    by (rule strftime_dmy_padded [OF assms(8,3)])
  ultimately show ?thesis
    by (simp add: format_step_eq entry_text_def)
qed

theorem format_step_entry_witness:
  "ascii_digits ascii_runtime
   \<and> (1::nat) \<le> 2024 \<and> (2024::nat) \<le> 9999 \<and> (1::nat) \<le> 3 \<and> (3::nat) \<le> 12 \<and> (1::nat) \<le> 7
   \<and> 7 \<le> days_in_month 2024 3
   \<and> ((1000::nat) \<le> 2024 \<or> year_zero_padded ascii_runtime)
   \<and> date (sample_slot ''2024-03-07'' ''10:00'' 99) = PStr (iso_date 2024 3 7)
   \<and> format_step ascii_runtime [] 1 (sample_slot ''2024-03-07'' ''10:00'' 99)
       = ascii ''<b>1. '' @ [0x1F4C5] @ ascii '' 07.03.2024</b>'' @ [0x0A]
           @ ascii ''   '' @ [0x1F552] @ ascii '' 10:00 - 23:59'' @ [0x0A]
           @ ascii ''   '' @ [0x1F4B0] @ ascii '' 99 '' @ [0x20BD, 0x0A]
           @ [0x0A]"
proof -
  have d: "date (sample_slot ''2024-03-07'' ''10:00'' 99) = PStr (iso_date 2024 3 7)"
    by (simp add: sample_slot_def iso_date_def pad4_def pad2_def dec.simps digit_char_def ascii_def)
  have m: "(7::nat) \<le> days_in_month 2024 3" by (simp add: days_in_month_def)
  have r: "format_step ascii_runtime [] 1 (sample_slot ''2024-03-07'' ''10:00'' 99)
       = [] @ ascii ''<b>'' @ dec 1 @ ascii ''. '' @ [0x1F4C5] @ ascii '' ''
               @ pad2 7 @ [0x2E] @ pad2 3 @ [0x2E] @ pad4 2024 @ ascii ''</b>'' @ [0x0A]
               @ ascii ''   '' @ [0x1F552] @ ascii '' ''
               @ py_str ascii_runtime (start_time (sample_slot ''2024-03-07'' ''10:00'' 99))
               @ ascii '' - ''
               @ py_str ascii_runtime (end_time (sample_slot ''2024-03-07'' ''10:00'' 99)) @ [0x0A]
               @ (if truthy (price (sample_slot ''2024-03-07'' ''10:00'' 99))
                  then price_line ascii_runtime (sample_slot ''2024-03-07'' ''10:00'' 99) else [])
               @ [0x0A]"
    by (rule format_step_entry [OF ascii_runtime_digits _ _ _ _ _ m _ d]) simp_all
  have "format_step ascii_runtime [] 1 (sample_slot ''2024-03-07'' ''10:00'' 99)
       = ascii ''<b>1. '' @ [0x1F4C5] @ ascii '' 07.03.2024</b>'' @ [0x0A]
           @ ascii ''   '' @ [0x1F552] @ ascii '' 10:00 - 23:59'' @ [0x0A]
           @ ascii ''   '' @ [0x1F4B0] @ ascii '' 99 '' @ [0x20BD, 0x0A]
           @ [0x0A]"
    unfolding r
    by (simp add: sample_slot_def price_line_def pad4_def pad2_def dec.simps digit_char_def
        ascii_def repr_int_def)
  with d m ascii_runtime_digits show ?thesis by simp
qed

text \<open>
  C10: a slot among the first 15 whose date does not parse is skipped, no exception
  escapes and no entry stands for it; the entries after it keep the positions they have
  in the full list, only the slots up to position 15 are considered, and the count of
  further slots is the length of the full list less 15.
\<close>

theorem format_slots_message_skips:
  assumes "strptime U (date bad) = Inl e" and "length xs < 15"
  shows "format_slots_message U now (xs @ bad # ys)
           = header_text @ concat (rendered_entries U 1 xs)
               @ concat (rendered_entries U (length xs + 2) (take (14 - length xs) ys))
               @ (if 15 < length xs + 1 + length ys
                  then more_text (length xs + 1 + length ys - 15) else [])
               @ footer_text now"
proof -
  from assms(2) have t: "take 15 (xs @ bad # ys) = xs @ bad # take (14 - length xs) ys"
    by (simp add: take_Cons')
  have "rendered_entries U 1 (xs @ bad # take (14 - length xs) ys)
      = rendered_entries U 1 xs @ rendered_entries U (length xs + 2) (take (14 - length xs) ys)"
    using assms(1) by (simp add: rendered_entries_append)
  with t show ?thesis
    by (simp add: format_slots_message_def format_entries_eq Let_def)
qed

theorem format_slots_message_skips_witness:
  "strptime ascii_runtime (date (sample_slot [] ''10:00'' 99)) = Inl ValueError
   \<and> length [sample_slot ''2024-03-07'' ''10:00'' 99] < 15
   \<and> format_slots_message ascii_runtime (12, 0, 0)
        ([sample_slot ''2024-03-07'' ''10:00'' 99] @ sample_slot [] ''10:00'' 99
           # replicate 18 (sample_slot ''2024-03-07'' ''12:00'' 0))
      = header_text
          @ concat (rendered_entries ascii_runtime 1 [sample_slot ''2024-03-07'' ''10:00'' 99])
          @ concat (rendered_entries ascii_runtime
                      (length [sample_slot ''2024-03-07'' ''10:00'' 99] + 2)
                      (take (14 - length [sample_slot ''2024-03-07'' ''10:00'' 99])
                         (replicate 18 (sample_slot ''2024-03-07'' ''12:00'' 0))))
          @ (if 15 < length [sample_slot ''2024-03-07'' ''10:00'' 99] + 1
                       + length (replicate 18 (sample_slot ''2024-03-07'' ''12:00'' 0))
             then more_text (length [sample_slot ''2024-03-07'' ''10:00'' 99] + 1
                               + length (replicate 18 (sample_slot ''2024-03-07'' ''12:00'' 0)) - 15)
             else [])
          @ footer_text (12, 0, 0)"
proof -
  have 1: "strptime ascii_runtime (date (sample_slot [] ''10:00'' 99)) = Inl ValueError"
    by (rule sample_unparsed)
  have 2: "length [sample_slot ''2024-03-07'' ''10:00'' 99] < 15" by simp
  from 1 2 format_slots_message_skips
    [OF 1 2, where now = "(12, 0, 0)"
       and ys = "replicate 18 (sample_slot ''2024-03-07'' ''12:00'' 0)"]
  show ?thesis by blast
qed

section \<open>Properties of parsing\<close>

text \<open>
  On a response of the expected shape no \<open>get\<close> and no loop raises, and the two loops
  compute the records of the entries that count.
\<close>


lemma py_get_dict: "is_dict d \<Longrightarrow> py_get d k dflt = Inr (lookup d k dflt)"
  by (cases d) (simp_all add: is_dict_def py_get_def lookup_def)

lemma py_iter_list: "is_list v \<Longrightarrow> py_iter v = Inr (elements v)"
  by (cases v) (simp_all add: is_list_def py_iter_def elements_def)

lemma parse_slot_well_formed:
  assumes "well_formed_slot v"
  shows "parse_slot date_v v = Inr (if qualifies v then Some (slot_record date_v v) else None)"
proof -
  from assms have d: "is_dict v" by (simp add: well_formed_slot_def)
  show ?thesis
  proof (cases "qualifies v")
    case True
    with assms have p: "is_dict (lookup v (ascii ''price'') (PDict []))"
      by (simp add: well_formed_slot_def)
    from True show ?thesis
      by (simp add: parse_slot_def py_get_dict [OF d] py_get_dict [OF p] qualifies_def
          slot_record_def)
  next
    case False
    then show ?thesis
      by (auto simp: parse_slot_def py_get_dict [OF d] qualifies_def)
  qed
qed

lemma parse_day_slots_well_formed:
  "list_all well_formed_slot items \<Longrightarrow>
   parse_day_slots date_v items acc
     = Inr (acc @ map (slot_record date_v) (filter qualifies items))"
  by (induction items arbitrary: acc) (simp_all add: parse_slot_well_formed)

lemma parse_days_well_formed:
  "list_all well_formed_day days \<Longrightarrow>
   parse_days days acc = Inr (acc @ concat (map day_records days))"
proof (induction days arbitrary: acc)
  case Nil
  then show ?case by simp
next
  case (Cons day days)
  from Cons.prems have wd: "well_formed_day day" and r: "list_all well_formed_day days"
    by simp_all
  from wd have d: "is_dict day" and l: "is_list (day_slots_of day)"
    and s: "list_all well_formed_slot (elements (day_slots_of day))"
    by (simp_all add: well_formed_day_def)
  from l have i: "py_iter (lookup day (ascii ''slots'') (PList [])) = Inr (elements (day_slots_of day))"
    using py_iter_list [of "day_slots_of day"] by (simp add: day_slots_of_def)
  show ?case
    by (simp add: py_get_dict [OF d] i parse_day_slots_well_formed [OF s] Cons.IH [OF r]
        day_records_def)
qed

lemma parse_slots_well_formed:
  assumes "well_formed data"
  shows "parse_slots data = Inr (available_records data)"
proof -
  from assms have d: "is_dict data" and l: "is_list (slot_list_of data)"
    and w: "list_all well_formed_day (elements (slot_list_of data))"
    by (simp_all add: well_formed_def)
  have "parse_slots data =
      (case py_iter (slot_list_of data) of Inl e \<Rightarrow> Inl e | Inr days \<Rightarrow> parse_days days [])"
    by (simp add: parse_slots_def py_get_dict [OF d] slot_list_of_def)
  with py_iter_list [OF l] parse_days_well_formed [OF w, of "[]"] show ?thesis
    by (simp add: available_records_def)
qed

lemma sample_response_well_formed: "well_formed sample_response"
  by code_simp

lemma sample_response_records:
  "available_records sample_response
   = [\<lparr>date = PStr (ascii ''2024-03-07''), start_time = PStr (ascii ''10:00''),
        end_time = PStr (ascii ''11:00''), price = PInt 99, currency = PStr (ascii ''RUB'')\<rparr>]"
  by code_simp

text \<open>
  C8 as stated fails on its last part: a response that is a JSON array has no slot list
  to recognise, and \<open>parse_slots\<close> raises on it instead of returning an empty snapshot.
\<close>

theorem parse_slots_not_a_dict_counterexample:
  "parse_slots (PList []) = Inl AttributeError"
  by (simp add: parse_slots_def py_get_def)

text \<open>
  C8, amended: on a response of the expected shape \<open>parse_slots\<close> returns, in order, the
  records of exactly the slot entries whose availability flag is truthy and whose type is
  \<open>regular\<close>; the other entries are dropped without error, and a dictionary with no
  list of days gives the empty snapshot. On a response that is no dictionary
  \<open>parse_slots\<close> raises \<open>AttributeError\<close>.
\<close>

theorem parse_slots_available:
  "(well_formed data \<longrightarrow>
      parse_slots data = Inr (available_records data)
      \<and> (elements (slot_list_of data) = [] \<longrightarrow> parse_slots data = Inr []))
   \<and> (\<not> is_dict data \<longrightarrow> parse_slots data = Inl AttributeError)"
proof -
  have "parse_slots data = Inl AttributeError" if "\<not> is_dict data"
    using that by (cases data) (simp_all add: parse_slots_def py_get_def is_dict_def)
  moreover have "parse_slots data = Inr (available_records data)" if "well_formed data"
    using parse_slots_well_formed [OF that] .
  ultimately show ?thesis by (auto simp: available_records_def)
qed

theorem parse_slots_available_witness:
  "well_formed sample_response
   \<and> parse_slots sample_response
       = Inr [\<lparr>date = PStr (ascii ''2024-03-07''), start_time = PStr (ascii ''10:00''),
               end_time = PStr (ascii ''11:00''), price = PInt 99,
               currency = PStr (ascii ''RUB'')\<rparr>]
   \<and> well_formed (PDict [])
   \<and> elements (slot_list_of (PDict [])) = []
   \<and> parse_slots (PDict []) = Inr []
   \<and> \<not> is_dict PNone
   \<and> parse_slots PNone = Inl AttributeError"
proof -
  have e: "well_formed (PDict [])" "elements (slot_list_of (PDict [])) = []"
    by (simp_all add: well_formed_def is_dict_def is_list_def slot_list_of_def lookup_def
        elements_def)
  have n: "\<not> is_dict PNone" by (simp add: is_dict_def)
  from parse_slots_available [of sample_response] parse_slots_available [of "PDict []"]
    parse_slots_available [of PNone] e n sample_response_well_formed sample_response_records
  show ?thesis by auto
qed

section \<open>Properties of fetching\<close>




end
